theory Spec2Isabelle
  imports Complex_Main "HOL-Library.AList"
begin

section \<open>Data model\<close>

text \<open>
  The update command of \<^verbatim>\<open>features/update/update-model.ts\<close> works on live model
  elements, which are JavaScript objects that are shared by reference and mutated in
  place. They are modelled by an explicit store: an address is a natural number, the
  heap maps every address to the object stored there, and \<open>next\<close> is the first address
  that has never been allocated. A JavaScript number is modelled by a real; the code
  below only copies and compares numbers, the comparisons themselves are imported.
\<close>

type_synonym addr = nat

record point =
  point_x :: real
  point_y :: real

record dimension =
  dim_width :: real
  dim_height :: real

record bounds =
  bounds_x :: real
  bounds_y :: real
  bounds_width :: real
  bounds_height :: real

text \<open>
  Modelled from the spec: the class declarations of \<^verbatim>\<open>base/model/smodel\<close> and
  \<^verbatim>\<open>features/viewport/viewport-root\<close> are missing. These are the classes that the command
  tests with \<^verbatim>\<open>instanceof\<close>; every element of a tree has a child sequence, so
  \<^verbatim>\<open>SChildElement\<close> and \<^verbatim>\<open>SModelRoot\<close> are parent elements, and a viewport root is a model
  root.
\<close>

datatype elementClass =
  SModelElementClass | SParentElementClass | SChildElementClass
  | SModelRootClass | ViewportRootElementClass

fun instanceofSParentElement :: "elementClass \<Rightarrow> bool" where
  "instanceofSParentElement SModelElementClass = False"
| "instanceofSParentElement _ = True"

fun instanceofSChildElement :: "elementClass \<Rightarrow> bool" where
  "instanceofSChildElement SChildElementClass = True"
| "instanceofSChildElement _ = False"

fun instanceofSModelRoot :: "elementClass \<Rightarrow> bool" where
  "instanceofSModelRoot SModelRootClass = True"
| "instanceofSModelRoot ViewportRootElementClass = True"
| "instanceofSModelRoot _ = False"

fun instanceofViewportRootElement :: "elementClass \<Rightarrow> bool" where
  "instanceofViewportRootElement ViewportRootElementClass = True"
| "instanceofViewportRootElement _ = False"

text \<open>
  A live element. A property that an object does not have (\<^verbatim>\<open>undefined\<close>) is \<open>None\<close>.
  \<open>index\<close> is the identifier index that a root carries (\<^verbatim>\<open>root.index\<close>).
\<close>

record element =
  elem_class :: elementClass
  elem_id :: string
  elem_type :: string
  position :: "point option"
  bounds :: "bounds option"
  selected :: "bool option"
  opacity :: "real option"
  canvasBounds :: "bounds option"
  scroll :: "point option"
  zoom :: "real option"
  parent :: "addr option"
  children :: "addr list"
  index :: "string \<Rightarrow> addr option"

record state =
  heap :: "addr \<Rightarrow> element"
  "next" :: addr

definition modify :: "addr \<Rightarrow> (element \<Rightarrow> element) \<Rightarrow> state \<Rightarrow> state" where
  "modify a f st = st\<lparr>heap := (heap st)(a := f (heap st a))\<rparr>"

text \<open>
  Modelled from the spec: the capability checks \<^verbatim>\<open>isLocateable\<close>, \<^verbatim>\<open>isBoundsAware\<close>,
  \<^verbatim>\<open>isSelectable\<close> and \<^verbatim>\<open>isFadeable\<close> of the feature modules are missing. An element has
  a capability when it has the property of that capability.
\<close>

definition isLocateable :: "element \<Rightarrow> bool" where
  "isLocateable e = (position e \<noteq> None)"

definition isBoundsAware :: "element \<Rightarrow> bool" where
  "isBoundsAware e = (bounds e \<noteq> None)"

definition isSelectable :: "element \<Rightarrow> bool" where
  "isSelectable e = (selected e \<noteq> None)"

definition isFadeable :: "element \<Rightarrow> bool" where
  "isFadeable e = (opacity e \<noteq> None)"

text \<open>
  Modelled from the spec: \<^verbatim>\<open>SModelIndex.getById\<close>, \<^verbatim>\<open>SParentElement.add\<close> and
  \<^verbatim>\<open>SParentElement.remove\<close> of \<^verbatim>\<open>base/model/smodel\<close> are missing. The index is a lookup
  by identifier over the tree of its root; adding a child appends it to the parent's
  child sequence, makes the parent its parent and enters it into the index; removing a
  child undoes the three. The command reaches every parent through the index of one
  root, and that root is the first argument here.
\<close>

definition getById :: "state \<Rightarrow> addr \<Rightarrow> string \<Rightarrow> addr option" where
  "getById st rt i = index (heap st rt) i"

definition add :: "addr \<Rightarrow> addr \<Rightarrow> addr \<Rightarrow> state \<Rightarrow> state" where
  "add rt p c st =
     (let st1 = modify p (\<lambda>e. e\<lparr>children := children e @ [c]\<rparr>) st;
          st2 = modify c (\<lambda>e. e\<lparr>parent := Some p\<rparr>) st1
      in modify rt (\<lambda>e. e\<lparr>index := (index e)(elem_id (heap st2 c) \<mapsto> c)\<rparr>) st2)"

definition remove :: "addr \<Rightarrow> addr \<Rightarrow> addr \<Rightarrow> state \<Rightarrow> state" where
  "remove rt p c st =
     (let st1 = modify p (\<lambda>e. e\<lparr>children := removeAll c (children e)\<rparr>) st;
          st2 = modify c (\<lambda>e. e\<lparr>parent := None\<rparr>) st1
      in modify rt (\<lambda>e. e\<lparr>index := (index e)(elem_id (heap st2 c) := None)\<rparr>) st2)"

section \<open>Event listeners on virtual nodes\<close>

text \<open>
  \<^verbatim>\<open>getData\<close>, \<^verbatim>\<open>getOn\<close> and \<^verbatim>\<open>on\<close> of the virtual-node utilities. A virtual node has an
  optional \<^verbatim>\<open>data\<close> object, which has an optional \<^verbatim>\<open>on\<close> object from event names to
  listeners. \<^verbatim>\<open>getOn\<close> creates the \<^verbatim>\<open>on\<close> object as the literal \<^verbatim>\<open>{}\<close>, a plain object.
  The test \<^verbatim>\<open>if (on[event])\<close> is a property read: it finds the object's own property of
  that name and otherwise the property that a plain object inherits from
  \<^verbatim>\<open>Object.prototype\<close>. The inherited properties are functions, apart from \<^verbatim>\<open>__proto__\<close>,
  which reads as the prototype object; all of them are truthy.
\<close>

datatype jsError = Error string | TypeError string

datatype onValue =
  Handler nat
  | ListenerAndElement nat addr

record vnodeData =
  data_on :: "(string \<Rightarrow> onValue option) option"

record vnode =
  vnode_sel :: string
  vnode_data :: "vnodeData option"

definition objectPrototypeNames :: "string list" where
  "objectPrototypeNames =
     [''constructor'', ''hasOwnProperty'', ''isPrototypeOf'', ''propertyIsEnumerable'',
      ''toLocaleString'', ''toString'', ''valueOf'', ''__proto__'',
      ''__defineGetter__'', ''__defineSetter__'', ''__lookupGetter__'', ''__lookupSetter__'']"

definition truthyGet :: "(string \<Rightarrow> onValue option) \<Rightarrow> string \<Rightarrow> bool" where
  "truthyGet obj name =
     (case obj name of
        Some v \<Rightarrow> True
      | None \<Rightarrow> name \<in> set objectPrototypeNames)"

definition getData :: "vnode \<Rightarrow> vnodeData \<times> vnode" where
  "getData v =
     (case vnode_data v of
        None \<Rightarrow> (let d = \<lparr>data_on = None\<rparr> in (d, v\<lparr>vnode_data := Some d\<rparr>))
      | Some d \<Rightarrow> (d, v))"

definition getOn :: "vnode \<Rightarrow> (string \<Rightarrow> onValue option) \<times> vnode" where
  "getOn v =
     (let (d, v1) = getData v
      in case data_on d of
           None \<Rightarrow> (Map.empty, v1\<lparr>vnode_data := Some (d\<lparr>data_on := Some Map.empty\<rparr>)\<rparr>)
         | Some obj \<Rightarrow> (obj, v1))"

text \<open>
  \<^verbatim>\<open>on\<close> returns the error it throws, or the node after the assignment
  \<^verbatim>\<open>on[event] = [listener, element]\<close>, which writes into the \<^verbatim>\<open>on\<close> object of the data of
  the node. A listener is identified by a number.
\<close>

definition on :: "vnode \<Rightarrow> string \<Rightarrow> nat \<Rightarrow> addr \<Rightarrow> jsError + vnode" where
  "on v event listener elem =
     (let (obj, v1) = getOn v
      in if truthyGet obj event
         then Inl (Error (''EventListener for '' @ event @ '' already registered on VNode''))
         else Inr (v1\<lparr>vnode_data :=
                 Some ((fst (getData v1))\<lparr>data_on := Some (obj(event \<mapsto> ListenerAndElement listener elem))\<rparr>)\<rparr>))"

section \<open>The update command\<close>

subsection \<open>Schemas, matches and the action\<close>

text \<open>
  A schema is the plain description of an element that a model source sends. A match
  pairs an optional old element with an optional new one, each with the identifier of
  its parent. The matches of an action hold schemas; the matches of a match result hold
  live elements.
\<close>

datatype schema = Schema (schema_type: string) (schema_id: string) (schema_children: "schema list")

record 'e match =
  left :: "'e option"
  leftParentId :: "string option"
  right :: "'e option"
  rightParentId :: "string option"

text \<open>
  A match result is a JavaScript object from identifiers to matches. It is modelled by
  the list of its own properties in the order in which \<^verbatim>\<open>for (const id in matchResult)\<close>
  visits them. The assignment \<^verbatim>\<open>result[id] = converted\<close> replaces the value of a property
  that exists and appends a new property otherwise; for the name \<^verbatim>\<open>__proto__\<close> it is the
  setter inherited from \<^verbatim>\<open>Object.prototype\<close> that runs: it makes \<^verbatim>\<open>converted\<close> the
  prototype of the result and creates no property. The list holds the own properties
  only; the properties that a result inherits from such a prototype are not represented.
  An engine visits names that are array indices before the others; no statement below
  depends on the order of the visit.
\<close>

type_synonym matchResult = "(string \<times> addr match) list"

record updateModelAction =
  action_kind :: string
  matches :: "schema match list option"
  animate :: "bool option"
  action_newRoot :: "schema option"

definition KIND :: string where
  "KIND = ''updateModel''"

definition UpdateModelAction :: "schema option \<Rightarrow> updateModelAction" where
  "UpdateModelAction nr =
     \<lparr>action_kind = KIND, matches = None, animate = Some True, action_newRoot = nr\<rparr>"

record updateModelCommand =
  cmd_action :: updateModelAction
  oldRoot :: "addr option"
  newRoot :: "addr option"

definition UpdateModelCommand :: "updateModelAction \<Rightarrow> updateModelCommand" where
  "UpdateModelCommand a =
     \<lparr>cmd_action = (if animate a = None then a\<lparr>animate := Some True\<rparr> else a),
      oldRoot = None, newRoot = None\<rparr>"

subsection \<open>Collaborators\<close>

text \<open>
  The model factory is reached through the execution context, so it is a parameter of
  the model as it is of the code. It is called with a schema, and with a live element
  where the command copies one. The functions \<^verbatim>\<open>almostEquals\<close> and \<^verbatim>\<open>isValidDimension\<close>
  of \<^verbatim>\<open>utils/geometry\<close> and the method \<^verbatim>\<open>ModelMatcher.match\<close> are imported by the command
  from modules that are missing: they are parameters as well.
\<close>

datatype source = FromSchema schema | FromElement addr

record modelFactory =
  createRoot :: "source \<Rightarrow> state \<Rightarrow> addr \<times> state"
  createElement :: "source \<Rightarrow> state \<Rightarrow> addr \<times> state"

record commandExecutionContext =
  ctx_root :: addr
  ctx_modelFactory :: modelFactory

record imported =
  almostEquals :: "real \<Rightarrow> real \<Rightarrow> bool"
  isValidDimension :: "bounds \<Rightarrow> bool"
  modelMatcher :: "state \<Rightarrow> addr \<Rightarrow> addr \<Rightarrow> matchResult"

subsection \<open>Animation data and animations\<close>

datatype fadeType = FadeIn | FadeOut

record resolvedElementFade =
  fade_element :: addr
  fade_type :: fadeType

record resolvedElementMove =
  move_element :: addr
  move_elementId :: string
  fromPosition :: point
  toPosition :: point

record resolvedElementResize =
  resize_element :: addr
  fromDimension :: dimension
  toDimension :: dimension

record updateAnimationData =
  fades :: "resolvedElementFade list"
  moves :: "resolvedElementMove list option"
  resizes :: "resolvedElementResize list option"

text \<open>
  The animation objects that the command constructs, with the arguments it passes apart
  from the context. A \<^verbatim>\<open>Map\<close> is the list of its entries in insertion order.
\<close>

datatype animation =
  FadeAnimation addr "resolvedElementFade list" bool
  | MoveAnimation addr "(string \<times> resolvedElementMove) list" bool
  | ResizeAnimation addr "(string \<times> resolvedElementResize) list" bool
  | CompoundAnimation addr "animation list"

datatype animationOrRoot = IsAnimation animation | IsRoot addr

text \<open>
  A command result is the new root, or the promise that \<^verbatim>\<open>start()\<close> returns for an
  animation.
\<close>

datatype commandResult = ResultRoot addr | ResultPromise animation

subsection \<open>\<^verbatim>\<open>updateElement\<close>\<close>

text \<open>
  The five blocks of \<^verbatim>\<open>updateElement\<close>, in the order of the source. Each block reads the
  two elements from the store as the blocks before it have left it.
\<close>

definition updatePosition ::
  "imported \<Rightarrow> addr \<Rightarrow> addr \<Rightarrow> updateAnimationData \<times> state \<Rightarrow> updateAnimationData \<times> state" where
  "updatePosition imp l r acc =
     (let (animationData, st) = acc
      in if isLocateable (heap st l) \<and> isLocateable (heap st r)
         then case (position (heap st l), position (heap st r)) of
                (Some leftPos, Some rightPos) \<Rightarrow>
                  if \<not> almostEquals imp (point_x leftPos) (point_x rightPos)
                     \<or> \<not> almostEquals imp (point_y leftPos) (point_y rightPos)
                  then (animationData\<lparr>moves :=
                          Some ((case moves animationData of None \<Rightarrow> [] | Some ms \<Rightarrow> ms)
                            @ [\<lparr>move_element = r, move_elementId = elem_id (heap st r),
                                fromPosition = leftPos, toPosition = rightPos\<rparr>])\<rparr>,
                        modify r (\<lambda>e. e\<lparr>position := Some leftPos\<rparr>) st)
                  else (animationData, st)
              | _ \<Rightarrow> (animationData, st)
         else (animationData, st))"

definition updateBounds ::
  "imported \<Rightarrow> addr \<Rightarrow> addr \<Rightarrow> updateAnimationData \<times> state \<Rightarrow> updateAnimationData \<times> state" where
  "updateBounds imp l r acc =
     (let (animationData, st) = acc
      in if isBoundsAware (heap st l) \<and> isBoundsAware (heap st r)
         then case (bounds (heap st l), bounds (heap st r)) of
                (Some leftBounds, Some rightBounds) \<Rightarrow>
                  if \<not> isValidDimension imp rightBounds
                  then (animationData,
                        modify r (\<lambda>e. e\<lparr>bounds := Some
                           \<lparr>bounds_x = bounds_x rightBounds, bounds_y = bounds_y rightBounds,
                            bounds_width = bounds_width leftBounds,
                            bounds_height = bounds_height leftBounds\<rparr>\<rparr>) st)
                  else if \<not> almostEquals imp (bounds_width leftBounds) (bounds_width rightBounds)
                          \<or> \<not> almostEquals imp (bounds_height leftBounds) (bounds_height rightBounds)
                  then (animationData\<lparr>resizes :=
                          Some ((case resizes animationData of None \<Rightarrow> [] | Some rs \<Rightarrow> rs)
                            @ [\<lparr>resize_element = r,
                                fromDimension = \<lparr>dim_width = bounds_width leftBounds,
                                                 dim_height = bounds_height leftBounds\<rparr>,
                                toDimension = \<lparr>dim_width = bounds_width rightBounds,
                                               dim_height = bounds_height rightBounds\<rparr>\<rparr>])\<rparr>,
                        st)
                  else (animationData, st)
              | _ \<Rightarrow> (animationData, st)
         else (animationData, st))"

definition updateSelected :: "addr \<Rightarrow> addr \<Rightarrow> state \<Rightarrow> state" where
  "updateSelected l r st =
     (if isSelectable (heap st l) \<and> isSelectable (heap st r)
      then modify r (\<lambda>e. e\<lparr>selected := selected (heap st l)\<rparr>) st
      else st)"

definition updateCanvasBounds :: "addr \<Rightarrow> addr \<Rightarrow> state \<Rightarrow> state" where
  "updateCanvasBounds l r st =
     (if instanceofSModelRoot (elem_class (heap st l)) \<and> instanceofSModelRoot (elem_class (heap st r))
      then modify r (\<lambda>e. e\<lparr>canvasBounds := canvasBounds (heap st l)\<rparr>) st
      else st)"

definition updateViewport :: "addr \<Rightarrow> addr \<Rightarrow> state \<Rightarrow> state" where
  "updateViewport l r st =
     (if instanceofViewportRootElement (elem_class (heap st l))
         \<and> instanceofViewportRootElement (elem_class (heap st r))
      then modify r (\<lambda>e. e\<lparr>zoom := zoom (heap st l)\<rparr>)
             (modify r (\<lambda>e. e\<lparr>scroll := scroll (heap st l)\<rparr>) st)
      else st)"

definition updateElement ::
  "imported \<Rightarrow> addr \<Rightarrow> addr \<Rightarrow> updateAnimationData \<times> state \<Rightarrow> updateAnimationData \<times> state" where
  "updateElement imp l r acc =
     (let (animationData, st) = updateBounds imp l r (updatePosition imp l r acc)
      in (animationData, updateViewport l r (updateCanvasBounds l r (updateSelected l r st))))"

subsection \<open>\<^verbatim>\<open>computeAnimation\<close> and \<^verbatim>\<open>createAnimations\<close>\<close>

text \<open>The body of the loop of \<^verbatim>\<open>computeAnimation\<close>, for one match.\<close>

definition processMatch ::
  "imported \<Rightarrow> commandExecutionContext \<Rightarrow> addr \<Rightarrow> updateAnimationData \<times> state
     \<Rightarrow> addr match \<Rightarrow> updateAnimationData \<times> state" where
  "processMatch imp ctx nr acc m =
     (let (animationData, st) = acc
      in case (left m, right m) of
           (Some l, Some r) \<Rightarrow> updateElement imp l r (animationData, st)
         | (None, Some r) \<Rightarrow>
             if isFadeable (heap st r)
             then (animationData\<lparr>fades := fades animationData
                                    @ [\<lparr>fade_element = r, fade_type = FadeIn\<rparr>]\<rparr>,
                   modify r (\<lambda>e. e\<lparr>opacity := Some 0\<rparr>) st)
             else (animationData, st)
         | (Some l, None) \<Rightarrow>
             if instanceofSChildElement (elem_class (heap st l))
             then if isFadeable (heap st l) \<and> leftParentId m \<noteq> None
                  then if getById st nr (elem_id (heap st l)) = None
                       then case getById st nr (the (leftParentId m)) of
                              Some p \<Rightarrow>
                                if instanceofSParentElement (elem_class (heap st p))
                                then (let (leftCopy, st1) =
                                            createElement (ctx_modelFactory ctx) (FromElement l) st
                                      in (animationData\<lparr>fades := fades animationData
                                            @ [\<lparr>fade_element = leftCopy, fade_type = FadeOut\<rparr>]\<rparr>,
                                          add nr p leftCopy st1))
                                else (animationData, st)
                            | None \<Rightarrow> (animationData, st)
                       else (animationData, st)
                  else (animationData, st)
             else (animationData, st)
         | (None, None) \<Rightarrow> (animationData, st))"

text \<open>
  The loop of \<^verbatim>\<open>computeAnimation\<close>: it starts from animation data without jobs, visits the
  identifiers of the match result and reads the match of each.
\<close>

definition collectAnimationData ::
  "imported \<Rightarrow> commandExecutionContext \<Rightarrow> addr \<Rightarrow> matchResult \<Rightarrow> state
     \<Rightarrow> updateAnimationData \<times> state" where
  "collectAnimationData imp ctx nr matchResult st =
     foldl (\<lambda>acc i. case map_of matchResult i of
                       Some m \<Rightarrow> processMatch imp ctx nr acc m
                     | None \<Rightarrow> acc)
       (\<lparr>fades = [], moves = None, resizes = None\<rparr>, st)
       (map fst matchResult)"

text \<open>The two loops of \<^verbatim>\<open>createAnimations\<close> that fill a \<^verbatim>\<open>Map\<close>.\<close>

definition toMovesMap :: "resolvedElementMove list \<Rightarrow> (string \<times> resolvedElementMove) list" where
  "toMovesMap ms = foldl (\<lambda>movesMap mv. AList.update (move_elementId mv) mv movesMap) [] ms"

definition toResizesMap ::
  "state \<Rightarrow> resolvedElementResize list \<Rightarrow> (string \<times> resolvedElementResize) list" where
  "toResizesMap st rs =
     foldl (\<lambda>resizesMap rz. AList.update (elem_id (heap st (resize_element rz))) rz resizesMap) [] rs"

definition createAnimations :: "updateAnimationData \<Rightarrow> addr \<Rightarrow> state \<Rightarrow> animation list" where
  "createAnimations data rt st =
     (let animations = [];
          animations = (if length (fades data) > 0
                        then animations @ [FadeAnimation rt (fades data) True]
                        else animations);
          animations = (case moves data of
                          Some ms \<Rightarrow>
                            if length ms > 0
                            then animations @ [MoveAnimation rt (toMovesMap ms) False]
                            else animations
                        | None \<Rightarrow> animations);
          animations = (case resizes data of
                          Some rs \<Rightarrow>
                            if length rs > 0
                            then animations @ [ResizeAnimation rt (toResizesMap st rs) False]
                            else animations
                        | None \<Rightarrow> animations)
      in animations)"

definition computeAnimation ::
  "imported \<Rightarrow> addr \<Rightarrow> matchResult \<Rightarrow> commandExecutionContext \<Rightarrow> state
     \<Rightarrow> animationOrRoot \<times> state" where
  "computeAnimation imp nr matchResult ctx st =
     (let (animationData, st1) = collectAnimationData imp ctx nr matchResult st;
          animations = createAnimations animationData nr st1
      in (if length animations \<ge> 2 then IsAnimation (CompoundAnimation nr animations)
          else if length animations = 1 then IsAnimation (animations ! 0)
          else IsRoot nr,
          st1))"

subsection \<open>\<^verbatim>\<open>convertToMatchResult\<close> and \<^verbatim>\<open>applyMatches\<close>\<close>

text \<open>
  The body of the loop of \<^verbatim>\<open>convertToMatchResult\<close>: the identifier under which a match
  is stored, and the converted match.
\<close>

definition convertMatch ::
  "schema match \<Rightarrow> addr \<Rightarrow> addr \<Rightarrow> state \<Rightarrow> string option \<times> addr match" where
  "convertMatch m leftRoot rightRoot st =
     (let converted = \<lparr>left = None, leftParentId = None, right = None, rightParentId = None\<rparr>;
          i = None;
          (i, converted) =
            (case left m of
               Some s \<Rightarrow> (Some (schema_id s),
                          converted\<lparr>left := getById st leftRoot (schema_id s),
                                    leftParentId := leftParentId m\<rparr>)
             | None \<Rightarrow> (i, converted));
          (i, converted) =
            (case right m of
               Some s \<Rightarrow> (Some (schema_id s),
                          converted\<lparr>right := getById st rightRoot (schema_id s),
                                    rightParentId := rightParentId m\<rparr>)
             | None \<Rightarrow> (i, converted))
      in (i, converted))"

definition convertToMatchResult ::
  "schema match list \<Rightarrow> addr \<Rightarrow> addr \<Rightarrow> state \<Rightarrow> matchResult" where
  "convertToMatchResult ms leftRoot rightRoot st =
     foldl (\<lambda>result m. case convertMatch m leftRoot rightRoot st of
                          (Some i, converted) \<Rightarrow>
                            if i = ''__proto__'' then result
                            else AList.update i converted result
                        | (None, converted) \<Rightarrow> result)
       [] ms"

text \<open>
  The two halves of the body of the loop of \<^verbatim>\<open>applyMatches\<close>. The first half calls
  \<^verbatim>\<open>element.parent.remove\<close>, which throws a \<^verbatim>\<open>TypeError\<close> when the child element has no
  parent; the second half has no statement that throws.
\<close>

definition applyMatchLeft :: "addr \<Rightarrow> schema match \<Rightarrow> state \<Rightarrow> jsError + state" where
  "applyMatchLeft rt m st =
     (case left m of
        Some s \<Rightarrow>
          (case getById st rt (schema_id s) of
             Some el \<Rightarrow>
               if instanceofSChildElement (elem_class (heap st el))
               then (case parent (heap st el) of
                       Some p \<Rightarrow> Inr (remove rt p el st)
                     | None \<Rightarrow> Inl (TypeError ''Cannot read property remove of undefined''))
               else Inr st
           | None \<Rightarrow> Inr st)
      | None \<Rightarrow> Inr st)"

definition applyMatchRight ::
  "addr \<Rightarrow> schema match \<Rightarrow> commandExecutionContext \<Rightarrow> state \<Rightarrow> state" where
  "applyMatchRight rt m ctx st =
     (case right m of
        Some s \<Rightarrow>
          (let (el, st1) = createElement (ctx_modelFactory ctx) (FromSchema s) st;
               p = (case rightParentId m of
                      Some pid \<Rightarrow> getById st1 rt pid
                    | None \<Rightarrow> None)
           in case p of
                Some pa \<Rightarrow>
                  if instanceofSParentElement (elem_class (heap st1 pa))
                  then add rt pa el st1
                  else add rt rt el st1
              | None \<Rightarrow> add rt rt el st1)
      | None \<Rightarrow> st)"

fun applyMatches ::
  "addr \<Rightarrow> schema match list \<Rightarrow> commandExecutionContext \<Rightarrow> state \<Rightarrow> jsError + state" where
  "applyMatches rt [] ctx st = Inr st"
| "applyMatches rt (m # ms) ctx st =
     (case applyMatchLeft rt m st of
        Inl e \<Rightarrow> Inl e
      | Inr st1 \<Rightarrow> applyMatches rt ms ctx (applyMatchRight rt m ctx st1))"

subsection \<open>\<^verbatim>\<open>performUpdate\<close>, \<^verbatim>\<open>execute\<close>, \<^verbatim>\<open>undo\<close> and \<^verbatim>\<open>redo\<close>\<close>

text \<open>
  \<^verbatim>\<open>this.action.animate\<close> is truthy when the flag is \<^verbatim>\<open>true\<close>. \<^verbatim>\<open>execute\<close> stores the two
  roots in the command, which it returns with the result; \<^verbatim>\<open>undo\<close> and \<^verbatim>\<open>redo\<close> read them
  and throw a \<^verbatim>\<open>TypeError\<close> when they are still undefined.
\<close>

definition performUpdate ::
  "imported \<Rightarrow> updateModelCommand \<Rightarrow> addr \<Rightarrow> addr \<Rightarrow> commandExecutionContext \<Rightarrow> state
     \<Rightarrow> commandResult \<times> state" where
  "performUpdate imp cmd oldR newR ctx st =
     (if animate (cmd_action cmd) = Some True \<and> elem_id (heap st oldR) = elem_id (heap st newR)
      then (let matchResult =
                  (case matches (cmd_action cmd) of
                     None \<Rightarrow> modelMatcher imp st oldR newR
                   | Some ms \<Rightarrow> convertToMatchResult ms oldR newR st);
                (animationOrRoot, st1) = computeAnimation imp newR matchResult ctx st
            in case animationOrRoot of
                 IsAnimation a \<Rightarrow> (ResultPromise a, st1)
               | IsRoot r \<Rightarrow> (ResultRoot r, st1))
      else (ResultRoot newR,
            modify newR (\<lambda>e. e\<lparr>canvasBounds := canvasBounds (heap st oldR)\<rparr>) st))"




section \<open>Notions used in the statements\<close>

text \<open>The number of job sequences of the animation data that are not empty.\<close>

definition nonEmptySequences :: "updateAnimationData \<Rightarrow> nat" where
  "nonEmptySequences data =
     (if fades data = [] then 0 else 1)
     + (case moves data of None \<Rightarrow> 0 | Some ms \<Rightarrow> if ms = [] then 0 else 1)
     + (case resizes data of None \<Rightarrow> 0 | Some rs \<Rightarrow> if rs = [] then 0 else 1)"

fun isConcrete :: "animation \<Rightarrow> bool" where
  "isConcrete (CompoundAnimation rt as) = False"
| "isConcrete _ = True"

text \<open>
  A parent identifier is unresolved under a root when it is undefined, when the index of
  the root does not know it, or when the element found is not a parent element.
\<close>

definition unresolvedParent :: "state \<Rightarrow> addr \<Rightarrow> string option \<Rightarrow> bool" where
  "unresolvedParent st rt pid =
     (case pid of
        None \<Rightarrow> True
      | Some i \<Rightarrow>
          (case getById st rt i of
             None \<Rightarrow> True
           | Some p \<Rightarrow> \<not> instanceofSParentElement (elem_class (heap st p))))"

text \<open>
  The identifier under which \<^verbatim>\<open>convertToMatchResult\<close> stores a directive: that of its new
  side when it has one, and otherwise that of its old side.
\<close>

definition matchKey :: "schema match \<Rightarrow> string option" where
  "matchKey m =
     (case right m of
        Some s \<Rightarrow> Some (schema_id s)
      | None \<Rightarrow> (case left m of Some s \<Rightarrow> Some (schema_id s) | None \<Rightarrow> None))"




text \<open>
  A model factory only allocates when the element it creates is at an address that was
  not allocated before and every object that was allocated before is left as it was.
\<close>

definition factoryAllocatesOnly :: "modelFactory \<Rightarrow> bool" where
  "factoryAllocatesOnly f =
     (\<forall>src st. case createElement f src st of
                  (a, st') \<Rightarrow> next st \<le> a \<and> next st \<le> next st'
                             \<and> (\<forall>b. b < next st \<longrightarrow> heap st' b = heap st b))"

text \<open>
  The invariant of the loop of \<^verbatim>\<open>computeAnimation\<close> for a set \<open>N\<close> of addresses (the
  elements of the new tree) and the state \<open>st0\<close> before the loop: nothing has been
  released, every object allocated in \<open>st0\<close> outside \<open>N\<close> is as it was, and the index of
  the new root leads into \<open>N\<close> or to objects allocated since.
\<close>

definition frameInv :: "state \<Rightarrow> addr set \<Rightarrow> addr \<Rightarrow> state \<Rightarrow> bool" where
  "frameInv st0 N nr st =
     (next st0 \<le> next st
      \<and> (\<forall>a. a < next st0 \<and> a \<notin> N \<longrightarrow> heap st a = heap st0 a)
      \<and> (\<forall>i p. index (heap st nr) i = Some p \<longrightarrow> p \<in> N \<or> next st0 \<le> p))"

section \<open>Example data\<close>

text \<open>
  Modelled from the spec: \<^verbatim>\<open>almostEquals\<close> and \<^verbatim>\<open>isValidDimension\<close> of \<^verbatim>\<open>utils/geometry\<close>
  are missing. Two numbers are almost equal when they differ by less than a small
  tolerance, and a dimension is valid unless its width or its height is negative. The
  theorems below hold for every pair of such functions; these two are used in the
  examples.
\<close>

definition almostEqualsSpec :: "real \<Rightarrow> real \<Rightarrow> bool" where
  "almostEqualsSpec a b = (\<bar>a - b\<bar> < 1 / 1000)"

definition isValidDimensionSpec :: "bounds \<Rightarrow> bool" where
  "isValidDimensionSpec b = (bounds_width b \<ge> 0 \<and> bounds_height b \<ge> 0)"

text \<open>
  A model factory for the examples: it allocates one new child element (one new root),
  named after the schema, or a copy of the properties of the live element it is given.
\<close>

definition blankElement :: element where
  "blankElement =
     \<lparr>elem_class = SModelElementClass, elem_id = [], elem_type = [],
      position = None, bounds = None, selected = None, opacity = None,
      canvasBounds = None, scroll = None, zoom = None,
      parent = None, children = [], index = Map.empty\<rparr>"

definition allocate :: "element \<Rightarrow> state \<Rightarrow> addr \<times> state" where
  "allocate e st = (next st, st\<lparr>heap := (heap st)(next st := e), next := Suc (next st)\<rparr>)"

definition exampleFactory :: modelFactory where
  "exampleFactory =
     \<lparr>createRoot = (\<lambda>src st. case src of
          FromSchema s \<Rightarrow>
            allocate (blankElement\<lparr>elem_class := SModelRootClass, elem_id := schema_id s,
                                   elem_type := schema_type s\<rparr>) st
        | FromElement a \<Rightarrow>
            allocate ((heap st a)\<lparr>elem_class := SModelRootClass, parent := None, children := [],
                                  index := Map.empty\<rparr>) st),
      createElement = (\<lambda>src st. case src of
          FromSchema s \<Rightarrow>
            allocate (blankElement\<lparr>elem_class := SChildElementClass, elem_id := schema_id s,
                                   elem_type := schema_type s\<rparr>) st
        | FromElement a \<Rightarrow>
            allocate ((heap st a)\<lparr>elem_class := SChildElementClass, parent := None,
                                  children := []\<rparr>) st)\<rparr>"

text \<open>
  Two trees. The old tree is the root \<open>0\<close> named \<^verbatim>\<open>graph\<close> with the children \<open>1\<close>
  (\<^verbatim>\<open>a\<close>) and \<open>2\<close> (\<^verbatim>\<open>b\<close>); the new tree is the root \<open>3\<close> named \<^verbatim>\<open>graph\<close> with the
  children \<open>4\<close> (\<^verbatim>\<open>a\<close>, moved and not yet measured) and \<open>5\<close> (\<^verbatim>\<open>c\<close>).
\<close>

definition exampleHeap :: "addr \<Rightarrow> element" where
  "exampleHeap =
     (\<lambda>_. blankElement)
     (0 := blankElement\<lparr>elem_class := SModelRootClass, elem_id := ''graph'', elem_type := ''graph'',
            canvasBounds := Some \<lparr>bounds_x = 0, bounds_y = 0, bounds_width = 800, bounds_height = 600\<rparr>,
            children := [1, 2],
            index := [''graph'' \<mapsto> 0, ''a'' \<mapsto> 1, ''b'' \<mapsto> 2]\<rparr>,
      1 := blankElement\<lparr>elem_class := SChildElementClass, elem_id := ''a'', elem_type := ''node'',
            position := Some \<lparr>point_x = 0, point_y = 0\<rparr>,
            bounds := Some \<lparr>bounds_x = 0, bounds_y = 0, bounds_width = 5, bounds_height = 5\<rparr>,
            selected := Some True, opacity := Some 1, parent := Some 0\<rparr>,
      2 := blankElement\<lparr>elem_class := SChildElementClass, elem_id := ''b'', elem_type := ''node'',
            position := Some \<lparr>point_x = 3, point_y = 3\<rparr>,
            opacity := Some 1, parent := Some 0\<rparr>,
      3 := blankElement\<lparr>elem_class := SModelRootClass, elem_id := ''graph'', elem_type := ''graph'',
            children := [4, 5],
            index := [''graph'' \<mapsto> 3, ''a'' \<mapsto> 4, ''c'' \<mapsto> 5]\<rparr>,
      4 := blankElement\<lparr>elem_class := SChildElementClass, elem_id := ''a'', elem_type := ''node'',
            position := Some \<lparr>point_x = 10, point_y = 0\<rparr>,
            bounds := Some \<lparr>bounds_x = 10, bounds_y = 0, bounds_width = -1, bounds_height = -1\<rparr>,
            selected := Some False, opacity := Some 1, parent := Some 3\<rparr>,
      5 := blankElement\<lparr>elem_class := SChildElementClass, elem_id := ''c'', elem_type := ''node'',
            position := Some \<lparr>point_x = 7, point_y = 7\<rparr>,
            opacity := Some 1, parent := Some 3\<rparr>)"

definition exampleState :: state where
  "exampleState = \<lparr>heap = exampleHeap, next = 6\<rparr>"

definition exampleMatchResult :: matchResult where
  "exampleMatchResult =
     [(''graph'', \<lparr>left = Some 0, leftParentId = None, right = Some 3, rightParentId = None\<rparr>),
      (''a'', \<lparr>left = Some 1, leftParentId = Some ''graph'', right = Some 4, rightParentId = Some ''graph''\<rparr>),
      (''b'', \<lparr>left = Some 2, leftParentId = Some ''graph'', right = None, rightParentId = None\<rparr>),
      (''c'', \<lparr>left = None, leftParentId = None, right = Some 5, rightParentId = Some ''graph''\<rparr>)]"

definition exampleImported :: imported where
  "exampleImported =
     \<lparr>almostEquals = almostEqualsSpec, isValidDimension = isValidDimensionSpec,
      modelMatcher = (\<lambda>st ol nw. exampleMatchResult)\<rparr>"

definition exampleContext :: commandExecutionContext where
  "exampleContext = \<lparr>ctx_root = 0, ctx_modelFactory = exampleFactory\<rparr>"

text \<open>
  The example state with the new element \<^verbatim>\<open>a\<close> within the tolerance of the old position,
  and measured.
\<close>

definition exampleNearState :: state where
  "exampleNearState =
     modify 4 (\<lambda>e. e\<lparr>position := Some \<lparr>point_x = 1 / 2000, point_y = 0\<rparr>,
                       bounds := Some \<lparr>bounds_x = 0, bounds_y = 0, bounds_width = 9, bounds_height = 5\<rparr>\<rparr>)
       exampleState"

text \<open>Match results for parts of the example, an action, and a new root under another name.\<close>

definition exampleMoved :: matchResult where
  "exampleMoved =
     [(''a'', \<lparr>left = Some 1, leftParentId = Some ''graph'', right = Some 4, rightParentId = Some ''graph''\<rparr>)]"

definition exampleMovedAndAdded :: matchResult where
  "exampleMovedAndAdded =
     [(''a'', \<lparr>left = Some 1, leftParentId = Some ''graph'', right = Some 4, rightParentId = Some ''graph''\<rparr>),
      (''c'', \<lparr>left = None, leftParentId = None, right = Some 5, rightParentId = Some ''graph''\<rparr>)]"

definition exampleAction :: updateModelAction where
  "exampleAction = \<lparr>action_kind = KIND, matches = None, animate = None, action_newRoot = None\<rparr>"

definition exampleRenamedState :: state where
  "exampleRenamedState = modify 3 (\<lambda>e. e\<lparr>elem_id := ''diagram''\<rparr>) exampleState"

text \<open>
  Lists of directives against the example state: one that removes \<^verbatim>\<open>b\<close>, adds \<^verbatim>\<open>c\<close> and
  keeps \<^verbatim>\<open>a\<close>; one that pairs the old \<^verbatim>\<open>b\<close> with the new \<^verbatim>\<open>c\<close>; one that names an
  element that neither tree has.
\<close>

definition exampleDirectives :: "schema match list" where
  "exampleDirectives =
     [\<lparr>left = Some (Schema ''node'' ''b'' []), leftParentId = Some ''graph'',
       right = None, rightParentId = None\<rparr>,
      \<lparr>left = None, leftParentId = None,
       right = Some (Schema ''node'' ''c'' []), rightParentId = Some ''graph''\<rparr>,
      \<lparr>left = Some (Schema ''node'' ''a'' []), leftParentId = Some ''graph'',
       right = Some (Schema ''node'' ''a'' []), rightParentId = Some ''graph''\<rparr>]"




text \<open>
  A directive that adds an element under a parent that does not exist, and a match for
  the removed element \<^verbatim>\<open>b\<close> whose recorded parent does not exist in the new tree.
\<close>

definition exampleAddition :: "schema match" where
  "exampleAddition =
     \<lparr>left = None, leftParentId = None,
      right = Some (Schema ''node'' ''d'' []), rightParentId = Some ''nowhere''\<rparr>"

definition exampleOrphan :: "addr match" where
  "exampleOrphan =
     \<lparr>left = Some 2, leftParentId = Some ''nowhere'', right = None, rightParentId = None\<rparr>"

section \<open>The end of an animation\<close>

text \<open>
  Modelled from the spec: \<^verbatim>\<open>Animation.start\<close> and the classes \<^verbatim>\<open>FadeAnimation\<close>,
  \<^verbatim>\<open>MoveAnimation\<close>, \<^verbatim>\<open>ResizeAnimation\<close> and \<^verbatim>\<open>CompoundAnimation\<close> are missing. An animation
  interpolates the properties of its elements from the time fraction 0 to the time
  fraction 1: a fade the opacity, a move the position, a resize the width and the
  height. When it has ended, an element that faded in has the opacity 1 and an element
  that faded out the opacity 0, a moved element is at the target position of its job and
  a resized element has the target dimension of its job. The fourth argument of the fade
  animation, which \<^verbatim>\<open>computeAnimation\<close> sets to \<^verbatim>\<open>true\<close>, is taken to say that an element
  that has faded out is then removed from its parent. A compound animation has ended
  when its components have, taken in their order.

  \<^verbatim>\<open>performUpdate\<close> returns the promise of a started animation. The state that the model
  of \<^verbatim>\<open>performUpdate\<close> returns is the one in which the animation has been started, and
  \<open>settle\<close> gives the state in which the promise is resolved.
\<close>

definition finishFade :: "addr \<Rightarrow> bool \<Rightarrow> state \<Rightarrow> resolvedElementFade \<Rightarrow> state" where
  "finishFade rt removeAfterFadeOut st f =
     (case fade_type f of
        FadeIn \<Rightarrow> modify (fade_element f) (\<lambda>e. e\<lparr>opacity := Some 1\<rparr>) st
      | FadeOut \<Rightarrow>
          (let st1 = modify (fade_element f) (\<lambda>e. e\<lparr>opacity := Some 0\<rparr>) st
           in if removeAfterFadeOut
              then (case parent (heap st1 (fade_element f)) of
                      Some p \<Rightarrow> remove rt p (fade_element f) st1
                    | None \<Rightarrow> st1)
              else st1))"

definition finishMove :: "state \<Rightarrow> string \<times> resolvedElementMove \<Rightarrow> state" where
  "finishMove st km =
     modify (move_element (snd km)) (\<lambda>e. e\<lparr>position := Some (toPosition (snd km))\<rparr>) st"

definition finishResize :: "state \<Rightarrow> string \<times> resolvedElementResize \<Rightarrow> state" where
  "finishResize st kr =
     modify (resize_element (snd kr))
       (\<lambda>e. e\<lparr>bounds := map_option
                 (\<lambda>b. b\<lparr>bounds_width := dim_width (toDimension (snd kr)),
                          bounds_height := dim_height (toDimension (snd kr))\<rparr>) (bounds e)\<rparr>) st"

primrec finish :: "animation \<Rightarrow> state \<Rightarrow> state" where
  "finish (FadeAnimation rt fs removeAfterFadeOut) = (\<lambda>st. foldl (finishFade rt removeAfterFadeOut) st fs)"
| "finish (MoveAnimation rt movesMap b) = (\<lambda>st. foldl finishMove st movesMap)"
| "finish (ResizeAnimation rt resizesMap b) = (\<lambda>st. foldl finishResize st resizesMap)"
| "finish (CompoundAnimation rt as) = (\<lambda>st. foldl (\<lambda>s f. f s) st (map finish as))"

definition settle :: "commandResult \<Rightarrow> state \<Rightarrow> state" where
  "settle res st = (case res of ResultRoot r \<Rightarrow> st | ResultPromise a \<Rightarrow> finish a st)"

section \<open>Notions for the round trip of undo and redo\<close>

subsection \<open>The new element after \<^verbatim>\<open>updateElement\<close>\<close>

text \<open>
  What \<^verbatim>\<open>updateElement\<close> makes of the new element, as a function of the old and the new
  element, with one function for each of its five blocks, and the jobs that the first
  two blocks append. The lemma \<open>updateElement_cell\<close> below shows that they describe
  \<^verbatim>\<open>updateElement\<close>. The payload of an element is the element without its children and
  its index.
\<close>

definition payload :: "element \<Rightarrow> element" where
  "payload e = e\<lparr>children := [], index := Map.empty\<rparr>"

definition posCell :: "imported \<Rightarrow> element \<Rightarrow> element \<Rightarrow> element" where
  "posCell imp el er =
     (case (position el, position er) of
        (Some lp, Some rp) \<Rightarrow>
          if \<not> almostEquals imp (point_x lp) (point_x rp)
             \<or> \<not> almostEquals imp (point_y lp) (point_y rp)
          then er\<lparr>position := Some lp\<rparr> else er
      | _ \<Rightarrow> er)"

definition posData :: "imported \<Rightarrow> element \<Rightarrow> element \<Rightarrow> addr \<Rightarrow> updateAnimationData \<Rightarrow> updateAnimationData" where
  "posData imp el er r d =
     (case (position el, position er) of
        (Some lp, Some rp) \<Rightarrow>
          if \<not> almostEquals imp (point_x lp) (point_x rp)
             \<or> \<not> almostEquals imp (point_y lp) (point_y rp)
          then d\<lparr>moves := Some ((case moves d of None \<Rightarrow> [] | Some ms \<Rightarrow> ms)
                  @ [\<lparr>move_element = r, move_elementId = elem_id er,
                      fromPosition = lp, toPosition = rp\<rparr>])\<rparr>
          else d
      | _ \<Rightarrow> d)"

definition boundsCell :: "imported \<Rightarrow> element \<Rightarrow> element \<Rightarrow> element" where
  "boundsCell imp el er =
     (case (bounds el, bounds er) of
        (Some lb, Some rb) \<Rightarrow>
          if \<not> isValidDimension imp rb
          then er\<lparr>bounds := Some \<lparr>bounds_x = bounds_x rb, bounds_y = bounds_y rb,
                  bounds_width = bounds_width lb, bounds_height = bounds_height lb\<rparr>\<rparr>
          else er
      | _ \<Rightarrow> er)"

definition boundsData :: "imported \<Rightarrow> element \<Rightarrow> element \<Rightarrow> addr \<Rightarrow> updateAnimationData \<Rightarrow> updateAnimationData" where
  "boundsData imp el er r d =
     (case (bounds el, bounds er) of
        (Some lb, Some rb) \<Rightarrow>
          if \<not> isValidDimension imp rb then d
          else if \<not> almostEquals imp (bounds_width lb) (bounds_width rb)
                  \<or> \<not> almostEquals imp (bounds_height lb) (bounds_height rb)
          then d\<lparr>resizes := Some ((case resizes d of None \<Rightarrow> [] | Some rs \<Rightarrow> rs)
                  @ [\<lparr>resize_element = r,
                      fromDimension = \<lparr>dim_width = bounds_width lb, dim_height = bounds_height lb\<rparr>,
                      toDimension = \<lparr>dim_width = bounds_width rb, dim_height = bounds_height rb\<rparr>\<rparr>])\<rparr>
          else d
      | _ \<Rightarrow> d)"

definition selCell :: "element \<Rightarrow> element \<Rightarrow> element" where
  "selCell el er = (if isSelectable el \<and> isSelectable er then er\<lparr>selected := selected el\<rparr> else er)"

definition cbCell :: "element \<Rightarrow> element \<Rightarrow> element" where
  "cbCell el er =
     (if instanceofSModelRoot (elem_class el) \<and> instanceofSModelRoot (elem_class er)
      then er\<lparr>canvasBounds := canvasBounds el\<rparr> else er)"

definition vpCell :: "element \<Rightarrow> element \<Rightarrow> element" where
  "vpCell el er =
     (if instanceofViewportRootElement (elem_class el) \<and> instanceofViewportRootElement (elem_class er)
      then er\<lparr>scroll := scroll el, zoom := zoom el\<rparr> else er)"

definition stepCell :: "imported \<Rightarrow> element \<Rightarrow> element \<Rightarrow> element" where
  "stepCell imp el er = vpCell el (cbCell el (selCell el (boundsCell imp el (posCell imp el er))))"

definition stepData :: "imported \<Rightarrow> element \<Rightarrow> element \<Rightarrow> addr \<Rightarrow> updateAnimationData \<Rightarrow> updateAnimationData" where
  "stepData imp el er r d = boundsData imp el (posCell imp el er) r (posData imp el er r d)"

subsection \<open>The state of the new tree during a pass\<close>

text \<open>
  The copies that the fade-out jobs name and the elements that the fade-in jobs name; the
  move jobs and the resize jobs; an element with the opacity at which a fade-in starts
  and ends; the new elements that a list of matches names; the new element after the
  matches of a list have been visited; and the fadeable elements that a list of matches
  adds.
\<close>

definition ghostsOf :: "resolvedElementFade list \<Rightarrow> addr set" where
  "ghostsOf fs = fade_element ` {f \<in> set fs. fade_type f = FadeOut}"

definition fadeInsOf :: "resolvedElementFade list \<Rightarrow> addr set" where
  "fadeInsOf fs = fade_element ` {f \<in> set fs. fade_type f = FadeIn}"

definition movesOf :: "updateAnimationData \<Rightarrow> resolvedElementMove list" where
  "movesOf d = (case moves d of None \<Rightarrow> [] | Some ms \<Rightarrow> ms)"

definition resizesOf :: "updateAnimationData \<Rightarrow> resolvedElementResize list" where
  "resizesOf d = (case resizes d of None \<Rightarrow> [] | Some rs \<Rightarrow> rs)"

definition fadeStart :: "element \<Rightarrow> element" where
  "fadeStart e = (if isFadeable e then e\<lparr>opacity := Some 0\<rparr> else e)"

definition fadeEnd :: "element \<Rightarrow> element" where
  "fadeEnd e = (if isFadeable e then e\<lparr>opacity := Some 1\<rparr> else e)"

definition rightsOf :: "addr match list \<Rightarrow> addr list" where
  "rightsOf ms = List.map_filter right ms"

definition duringCell :: "imported \<Rightarrow> state \<Rightarrow> addr match list \<Rightarrow> addr \<Rightarrow> element" where
  "duringCell imp st0 ms r =
     (case filter (\<lambda>m. right m = Some r) ms of
        [] \<Rightarrow> heap st0 r
      | m # _ \<Rightarrow> (case left m of
                    Some l \<Rightarrow> stepCell imp (heap st0 l) (heap st0 r)
                  | None \<Rightarrow> fadeStart (heap st0 r)))"

definition addedFadeable :: "state \<Rightarrow> addr match list \<Rightarrow> addr \<Rightarrow> bool" where
  "addedFadeable st0 ms r = (\<exists>m \<in> set ms. left m = None \<and> right m = Some r \<and> isFadeable (heap st0 r))"

text \<open>
  The conditions under which a pass is considered. The matches name old elements in
  \<open>S\<close> and new elements in \<open>T\<close>, and no new element twice. The two sets are disjoint
  sets of allocated objects, \<open>T\<close> has the root of the new tree, the index of this root
  leads into \<open>T\<close>, the children of the elements of \<open>T\<close> are in \<open>T\<close>, and no two
  elements of \<open>T\<close> have the same identifier. The model factory returns an allocated object
  that has the identifier of the element it copies.
\<close>

definition matchesOk :: "addr set \<Rightarrow> addr set \<Rightarrow> addr match list \<Rightarrow> bool" where
  "matchesOk S T ms =
     ((\<forall>m \<in> set ms. (\<forall>l. left m = Some l \<longrightarrow> l \<in> S) \<and> (\<forall>r. right m = Some r \<longrightarrow> r \<in> T))
      \<and> distinct (rightsOf ms))"

definition treesOk :: "addr set \<Rightarrow> addr set \<Rightarrow> addr \<Rightarrow> state \<Rightarrow> bool" where
  "treesOk S T tr st0 =
     (S \<inter> T = {} \<and> (\<forall>a \<in> S \<union> T. a < next st0) \<and> tr \<in> T
      \<and> (\<forall>i p. index (heap st0 tr) i = Some p \<longrightarrow> p \<in> T)
      \<and> (\<forall>a \<in> T. set (children (heap st0 a)) \<subseteq> T)
      \<and> inj_on (\<lambda>a. elem_id (heap st0 a)) T)"

definition factoryCopies :: "modelFactory \<Rightarrow> bool" where
  "factoryCopies f =
     (\<forall>src st. case createElement f src st of
                  (a, st') \<Rightarrow> a < next st'
                             \<and> (\<forall>l. src = FromElement l \<longrightarrow> elem_id (heap st' a) = elem_id (heap st l)))"

text \<open>
  The invariant of the loop of \<^verbatim>\<open>computeAnimation\<close>, in seven parts, for the state \<open>st0\<close>
  before the loop and the matches \<open>ms\<close> visited so far: objects outside \<open>T\<close> are as they
  were; the payload of an element of \<open>T\<close> is that of \<open>duringCell\<close>; the children of the
  elements of \<open>T\<close> and the index of the root are as they were but for the copies that
  fade out, which were allocated by the loop under identifiers that the index did not
  have; the fade-in jobs name the fadeable additions; a move job leads to the position
  that its element had, and every element that is not where it was has one; a resize
  job leads to the dimension that its element has.
\<close>

definition inv_frame :: "addr set \<Rightarrow> state \<Rightarrow> state \<Rightarrow> bool" where
  "inv_frame T st0 st =
     (next st0 \<le> next st \<and> (\<forall>a. a < next st0 \<and> a \<notin> T \<longrightarrow> heap st a = heap st0 a))"

definition inv_payload ::
  "imported \<Rightarrow> addr set \<Rightarrow> addr \<Rightarrow> state \<Rightarrow> addr match list \<Rightarrow> state \<Rightarrow> bool" where
  "inv_payload imp T tr st0 ms st =
     (\<forall>r \<in> T. payload (heap st r) = payload (duringCell imp st0 ms r)
              \<and> (r \<noteq> tr \<longrightarrow> index (heap st r) = index (heap st0 r)))"

definition ghostInv ::
  "addr set \<Rightarrow> addr \<Rightarrow> state \<Rightarrow> resolvedElementFade list \<Rightarrow> state \<Rightarrow> bool" where
  "ghostInv T tr st0 fs st =
     ((\<forall>g \<in> ghostsOf fs. next st0 \<le> g \<and> index (heap st0 tr) (elem_id (heap st g)) = None
              \<and> (\<forall>p. parent (heap st g) = Some p \<longrightarrow> p \<in> T \<or> next st0 \<le> p))
      \<and> (\<forall>a \<in> T. filter (\<lambda>c. c < next st0) (children (heap st a)) = children (heap st0 a)
              \<and> (\<forall>c \<in> set (children (heap st a)).
                    c < next st0 \<or> (c \<in> ghostsOf fs \<and> parent (heap st c) = Some a)))
      \<and> (\<forall>i. index (heap st tr) i = index (heap st0 tr) i
              \<or> (index (heap st0 tr) i = None
                  \<and> (\<exists>g \<in> ghostsOf fs. elem_id (heap st g) = i \<and> parent (heap st g) \<noteq> None)))
      \<and> fadeInsOf fs \<subseteq> T)"

definition inv_alloc :: "addr set \<Rightarrow> addr \<Rightarrow> state \<Rightarrow> resolvedElementFade list \<Rightarrow> state \<Rightarrow> bool" where
  "inv_alloc T tr st0 fs st =
     ((\<forall>g \<in> ghostsOf fs. g < next st)
      \<and> (\<forall>i q. index (heap st tr) i = Some q \<longrightarrow> q < next st \<and> (q \<in> T \<or> next st0 \<le> q)))"

definition inv_fadeIns :: "state \<Rightarrow> addr match list \<Rightarrow> resolvedElementFade list \<Rightarrow> bool" where
  "inv_fadeIns st0 ms fs = (\<forall>r. r \<in> fadeInsOf fs \<longleftrightarrow> addedFadeable st0 ms r)"

definition inv_moves :: "addr set \<Rightarrow> state \<Rightarrow> updateAnimationData \<Rightarrow> state \<Rightarrow> bool" where
  "inv_moves T st0 d st =
     ((\<forall>j \<in> set (movesOf d). move_element j \<in> T
          \<and> position (heap st0 (move_element j)) = Some (toPosition j)
          \<and> move_elementId j = elem_id (heap st0 (move_element j)))
      \<and> (\<forall>r \<in> T. position (heap st r) \<noteq> position (heap st0 r)
            \<longrightarrow> r \<in> move_element ` set (movesOf d)))"

definition inv_resizes :: "addr match list \<Rightarrow> updateAnimationData \<Rightarrow> state \<Rightarrow> bool" where
  "inv_resizes ms d st =
     (\<forall>j \<in> set (resizesOf d). resize_element j \<in> set (rightsOf ms)
          \<and> (\<exists>b. bounds (heap st (resize_element j)) = Some b
                \<and> toDimension j = \<lparr>dim_width = bounds_width b, dim_height = bounds_height b\<rparr>))"

definition passInv ::
  "imported \<Rightarrow> addr set \<Rightarrow> addr \<Rightarrow> state \<Rightarrow> addr match list \<Rightarrow> updateAnimationData \<times> state \<Rightarrow> bool" where
  "passInv imp T tr st0 ms dst =
     (inv_frame T st0 (snd dst) \<and> inv_payload imp T tr st0 ms (snd dst)
      \<and> ghostInv T tr st0 (fades (fst dst)) (snd dst)
      \<and> inv_alloc T tr st0 (fades (fst dst)) (snd dst)
      \<and> inv_fadeIns st0 ms (fades (fst dst))
      \<and> inv_moves T st0 (fst dst) (snd dst)
      \<and> inv_resizes ms (fst dst) (snd dst))"

text \<open>
  The conditions under which \<^verbatim>\<open>updateElement\<close> appends a move job and a resize job, and
  the condition under which \<^verbatim>\<open>computeAnimation\<close> inserts a copy of a removed element
  \<open>l\<close> under the parent \<open>p\<close>.
\<close>

definition moved :: "imported \<Rightarrow> element \<Rightarrow> element \<Rightarrow> bool" where
  "moved imp el er =
     (case (position el, position er) of
        (Some lp, Some rp) \<Rightarrow> \<not> almostEquals imp (point_x lp) (point_x rp)
                              \<or> \<not> almostEquals imp (point_y lp) (point_y rp)
      | _ \<Rightarrow> False)"

definition resized :: "imported \<Rightarrow> element \<Rightarrow> element \<Rightarrow> bool" where
  "resized imp el er =
     (case (bounds el, bounds er) of
        (Some lb, Some rb) \<Rightarrow> isValidDimension imp rb
            \<and> (\<not> almostEquals imp (bounds_width lb) (bounds_width rb)
               \<or> \<not> almostEquals imp (bounds_height lb) (bounds_height rb))
      | _ \<Rightarrow> False)"

definition ghostWanted :: "addr \<Rightarrow> state \<Rightarrow> addr match \<Rightarrow> addr \<Rightarrow> addr \<Rightarrow> bool" where
  "ghostWanted tr st m l p =
     (instanceofSChildElement (elem_class (heap st l)) \<and> isFadeable (heap st l)
      \<and> leftParentId m \<noteq> None \<and> getById st tr (elem_id (heap st l)) = None
      \<and> getById st tr (the (leftParentId m)) = Some p
      \<and> instanceofSParentElement (elem_class (heap st p)))"

text \<open>
  A match result is proper when no identifier is listed twice and its matches satisfy
  \<open>matchesOk\<close>.
\<close>

definition properMatch :: "addr set \<Rightarrow> addr set \<Rightarrow> matchResult \<Rightarrow> bool" where
  "properMatch S T mr = (distinct (map fst mr) \<and> matchesOk S T (map snd mr))"

subsection \<open>The state of the new tree when the animation has ended\<close>

text \<open>
  The core of an element is the element without its opacity, its children and its
  index. \<open>fadesDone\<close> relates the states before and after the end of the fades \<open>fs\<close>.
  \<open>finishAll\<close> is the end of the fades, then of the moves, then of the resizes of the
  animation data. \<open>finalCell\<close> is the new element at the end of a pass: \<open>duringCell\<close> at
  its own position and, when it was added and is fadeable, with the opacity 1.
\<close>

definition core :: "element \<Rightarrow> element" where
  "core e = e\<lparr>opacity := None, children := [], index := Map.empty\<rparr>"

definition fadesDone ::
  "addr set \<Rightarrow> addr \<Rightarrow> state \<Rightarrow> resolvedElementFade list \<Rightarrow> state \<Rightarrow> state \<Rightarrow> bool" where
  "fadesDone T tr st0 fs st st' =
     (next st' = next st
      \<and> (\<forall>a. a < next st0 \<and> a \<notin> T \<longrightarrow> heap st' a = heap st a)
      \<and> (\<forall>a \<in> T. core (heap st' a) = core (heap st a)
              \<and> opacity (heap st' a) = (if a \<in> fadeInsOf fs then Some 1 else opacity (heap st a))
              \<and> (a \<noteq> tr \<longrightarrow> index (heap st' a) = index (heap st a))))"

definition finishAll :: "updateAnimationData \<Rightarrow> addr \<Rightarrow> state \<Rightarrow> state" where
  "finishAll d tr st =
     foldl finishResize
       (foldl finishMove (foldl (finishFade tr True) st (fades d)) (toMovesMap (movesOf d)))
       (toResizesMap st (resizesOf d))"

definition finalCell :: "imported \<Rightarrow> state \<Rightarrow> addr match list \<Rightarrow> addr \<Rightarrow> element" where
  "finalCell imp st0 ms a =
     (duringCell imp st0 ms a)
       \<lparr>position := position (heap st0 a),
        opacity := (if addedFadeable st0 ms a then Some 1 else opacity (duringCell imp st0 ms a))\<rparr>"

text \<open>
  The new element of a pair at the end of a pass, and its bounds and its selection flag
  as functions of those of the old and the new element.
\<close>

definition syncCell :: "imported \<Rightarrow> element \<Rightarrow> element \<Rightarrow> element" where
  "syncCell imp el er = (stepCell imp el er)\<lparr>position := position er\<rparr>"

definition syncBounds :: "imported \<Rightarrow> bounds option \<Rightarrow> bounds option \<Rightarrow> bounds option" where
  "syncBounds imp bl br =
     (case (bl, br) of
        (Some lb, Some rb) \<Rightarrow>
          if \<not> isValidDimension imp rb
          then Some \<lparr>bounds_x = bounds_x rb, bounds_y = bounds_y rb,
                     bounds_width = bounds_width lb, bounds_height = bounds_height lb\<rparr>
          else Some rb
      | _ \<Rightarrow> br)"

definition syncSelected :: "bool option \<Rightarrow> bool option \<Rightarrow> bool option" where
  "syncSelected sl sr = (if sl \<noteq> None \<and> sr \<noteq> None then sl else sr)"

text \<open>
  The pairs of old and new elements and the additions of a list of matches. The three
  match results of an execution, its undo and its redo agree when each is proper, the
  second has the pairs of the first with the sides exchanged, and the third has the
  pairs and the additions of the first. \<^verbatim>\<open>ModelMatcher.match\<close> is missing: the theorem on
  the round trip assumes this of it.
\<close>

definition pairsOf :: "addr match list \<Rightarrow> (addr \<times> addr) set" where
  "pairsOf ms = {(l, r). \<exists>m \<in> set ms. left m = Some l \<and> right m = Some r}"

definition addedOf :: "addr match list \<Rightarrow> addr set" where
  "addedOf ms = {r. \<exists>m \<in> set ms. left m = None \<and> right m = Some r}"

definition matcherAgrees ::
  "imported \<Rightarrow> addr set \<Rightarrow> addr set \<Rightarrow> addr \<Rightarrow> addr \<Rightarrow> state \<Rightarrow> state \<Rightarrow> state \<Rightarrow> bool" where
  "matcherAgrees imp S T ol nw st0 u1 u2 =
     (properMatch S T (modelMatcher imp st0 ol nw)
      \<and> properMatch T S (modelMatcher imp u1 nw ol)
      \<and> properMatch S T (modelMatcher imp u2 ol nw)
      \<and> pairsOf (map snd (modelMatcher imp u1 nw ol))
            = prod.swap ` pairsOf (map snd (modelMatcher imp st0 ol nw))
      \<and> pairsOf (map snd (modelMatcher imp u2 ol nw)) = pairsOf (map snd (modelMatcher imp st0 ol nw))
      \<and> addedOf (map snd (modelMatcher imp u2 ol nw)) = addedOf (map snd (modelMatcher imp st0 ol nw)))"

section \<open>Example data for the round trip\<close>

text \<open>
  The match result of the example with the sides exchanged, and a matcher that returns
  it when the old tree of the example is on the right. A model factory whose
  \<^verbatim>\<open>createRoot\<close> allocates the new tree of the example at the addresses \<open>3\<close> to \<open>5\<close>; the
  state that only has the old tree; a command with a schema of the new tree; the command
  after \<^verbatim>\<open>execute\<close>; and the results of \<^verbatim>\<open>performUpdate\<close> in the execution, in the undo
  after the end of its animation, and in the redo after the end of the animation of the
  undo.
\<close>

definition exampleMirrorResult :: matchResult where
  "exampleMirrorResult =
     [(''graph'', \<lparr>left = Some 3, leftParentId = None, right = Some 0, rightParentId = None\<rparr>),
      (''a'', \<lparr>left = Some 4, leftParentId = Some ''graph'', right = Some 1, rightParentId = Some ''graph''\<rparr>),
      (''c'', \<lparr>left = Some 5, leftParentId = Some ''graph'', right = None, rightParentId = None\<rparr>),
      (''b'', \<lparr>left = None, leftParentId = None, right = Some 2, rightParentId = Some ''graph''\<rparr>)]"

definition roundTripImported :: imported where
  "roundTripImported =
     \<lparr>almostEquals = almostEqualsSpec, isValidDimension = isValidDimensionSpec,
      modelMatcher = (\<lambda>st ol nw. if ol = 0 then exampleMatchResult else exampleMirrorResult)\<rparr>"

definition roundTripFactory :: modelFactory where
  "roundTripFactory =
     \<lparr>createRoot = (\<lambda>src st.
         (3, st\<lparr>heap := (heap st)(3 := exampleHeap 3, 4 := exampleHeap 4, 5 := exampleHeap 5),
                 next := 6\<rparr>)),
      createElement = createElement exampleFactory\<rparr>"

definition roundTripContext :: commandExecutionContext where
  "roundTripContext = \<lparr>ctx_root = 0, ctx_modelFactory = roundTripFactory\<rparr>"


definition exampleSchema :: schema where
  "exampleSchema = Schema ''graph'' ''graph'' [Schema ''node'' ''a'' [], Schema ''node'' ''c'' []]"

definition roundTripCommand :: updateModelCommand where
  "roundTripCommand = UpdateModelCommand (UpdateModelAction (Some exampleSchema))"

definition executedCommand :: updateModelCommand where
  "executedCommand = roundTripCommand\<lparr>oldRoot := Some 0, newRoot := Some 3\<rparr>"

definition exampleExecute :: "commandResult \<times> state" where
  "exampleExecute = performUpdate roundTripImported executedCommand 0 3 roundTripContext exampleState"



section \<open>Notions for the fades of a pass\<close>

text \<open>
  The fade jobs of an animation, and those of the result of \<^verbatim>\<open>computeAnimation\<close>: a
  compound animation has the jobs of its components, and a root that is returned in place
  of an animation has none.
\<close>

primrec fadesOf :: "animation \<Rightarrow> resolvedElementFade list" where
  "fadesOf (FadeAnimation rt fs b) = fs"
| "fadesOf (MoveAnimation rt mm b) = []"
| "fadesOf (ResizeAnimation rt rm b) = []"
| "fadesOf (CompoundAnimation rt as) = concat (map fadesOf as)"

definition queuedFades :: "animationOrRoot \<Rightarrow> resolvedElementFade list" where
  "queuedFades r = (case r of IsAnimation a \<Rightarrow> fadesOf a | IsRoot rt \<Rightarrow> [])"

text \<open>
  The identifiers of the old elements that the matches of a list remove. The removals of a
  list are distinct when no two of its matches remove elements with the same identifier.

  The loop of \<^verbatim>\<open>computeAnimation\<close> resolves the recorded parent of a removed element in the
  index of the new root as the loop has left it, and \<^verbatim>\<open>add\<close> enters every inserted copy
  into that index. A recorded parent identifier never resolves in a pass when it is
  undefined, when the index of the new root has it before the pass for an element that is
  not a parent element, or when that index does not have it and no removed element of the
  list has it.
\<close>

definition removedIds :: "state \<Rightarrow> addr match list \<Rightarrow> string set" where
  "removedIds st0 ms =
     set (map (\<lambda>m. elem_id (heap st0 (the (left m))))
            (filter (\<lambda>m. left m \<noteq> None \<and> right m = None) ms))"

definition removalsDistinct :: "state \<Rightarrow> addr match list \<Rightarrow> bool" where
  "removalsDistinct st0 ms =
     (\<forall>m1 \<in> set ms. \<forall>m2 \<in> set ms.
        left m1 \<noteq> None \<and> right m1 = None \<and> left m2 \<noteq> None \<and> right m2 = None
        \<and> elem_id (heap st0 (the (left m1))) = elem_id (heap st0 (the (left m2)))
        \<longrightarrow> m1 = m2)"

definition neverResolves :: "state \<Rightarrow> addr \<Rightarrow> addr match list \<Rightarrow> string option \<Rightarrow> bool" where
  "neverResolves st0 nr ms pid =
     (case pid of
        None \<Rightarrow> True
      | Some i \<Rightarrow>
          (case getById st0 nr i of
             None \<Rightarrow> i \<notin> removedIds st0 ms
           | Some p \<Rightarrow> \<not> instanceofSParentElement (elem_class (heap st0 p))))"

text \<open>
  The fade-out jobs whose element has a given identifier, and the invariant of the loop of
  \<^verbatim>\<open>computeAnimation\<close> for the fade jobs, for the state \<open>st0\<close> before the loop and the
  matches \<open>ms\<close> visited so far: every copy that fades out is in the index of the new root,
  under the identifier of a removed element whose recorded parent may resolve; every
  removed element for which \<open>ghostWanted\<close> holds before the loop has exactly one fade-out
  job, for a copy that the loop has allocated and made a child of the resolved parent; and
  every added element that is fadeable has exactly one job, a fade-in.
\<close>

definition outJobs :: "state \<Rightarrow> string \<Rightarrow> resolvedElementFade list \<Rightarrow> resolvedElementFade list" where
  "outJobs st i fs = filter (\<lambda>f. fade_type f = FadeOut \<and> elem_id (heap st (fade_element f)) = i) fs"

definition jobsInv ::
  "addr \<Rightarrow> state \<Rightarrow> addr match list \<Rightarrow> resolvedElementFade list \<Rightarrow> state \<Rightarrow> bool" where
  "jobsInv nr st0 ms fs st =
     ((\<forall>g \<in> ghostsOf fs. index (heap st nr) (elem_id (heap st g)) \<noteq> None
          \<and> (\<exists>m \<in> set ms. left m \<noteq> None \<and> right m = None
                \<and> elem_id (heap st g) = elem_id (heap st0 (the (left m)))
                \<and> \<not> neverResolves st0 nr ms (leftParentId m)))
      \<and> (\<forall>m \<in> set ms. \<forall>l p. left m = Some l \<and> right m = None \<and> ghostWanted nr st0 m l p
            \<longrightarrow> (\<exists>g. outJobs st (elem_id (heap st0 l)) fs = [\<lparr>fade_element = g, fade_type = FadeOut\<rparr>]
                     \<and> next st0 \<le> g \<and> parent (heap st g) = Some p
                     \<and> g \<in> set (children (heap st p))))
      \<and> (\<forall>m \<in> set ms. \<forall>r. left m = None \<and> right m = Some r \<and> isFadeable (heap st0 r)
            \<longrightarrow> filter (\<lambda>f. fade_element f = r) fs = [\<lparr>fade_element = r, fade_type = FadeIn\<rparr>]))"

section \<open>Example data for fades and unresolved parents\<close>

text \<open>
  The result of \<^verbatim>\<open>computeAnimation\<close> for the two trees and the match result of the example,
  and for the match result in which the recorded parent of the removed element \<^verbatim>\<open>b\<close> does
  not exist in the new tree.
\<close>

definition examplePass :: "animationOrRoot \<times> state" where
  "examplePass = computeAnimation exampleImported 3 exampleMatchResult exampleContext exampleState"

definition exampleOrphanResult :: matchResult where
  "exampleOrphanResult =
     [(''graph'', \<lparr>left = Some 0, leftParentId = None, right = Some 3, rightParentId = None\<rparr>),
      (''a'', \<lparr>left = Some 1, leftParentId = Some ''graph'', right = Some 4, rightParentId = Some ''graph''\<rparr>),
      (''b'', exampleOrphan),
      (''c'', \<lparr>left = None, leftParentId = None, right = Some 5, rightParentId = Some ''graph''\<rparr>)]"

definition exampleOrphanPass :: "animationOrRoot \<times> state" where
  "exampleOrphanPass =
     computeAnimation exampleImported 3 exampleOrphanResult exampleContext exampleState"

text \<open>
  A directive that adds an element and names no parent; the state after \<^verbatim>\<open>applyMatches\<close>
  has applied it to the new tree of the example; and the element that the model factory
  then creates for the directive \<open>exampleAddition\<close>.
\<close>

definition exampleRootless :: "schema match" where
  "exampleRootless =
     \<lparr>left = None, leftParentId = None,
      right = Some (Schema ''node'' ''e'' []), rightParentId = None\<rparr>"

definition exampleFirst :: state where
  "exampleFirst = applyMatchRight 3 exampleRootless exampleContext exampleState"

definition exampleCreated :: "addr \<times> state" where
  "exampleCreated =
     createElement (ctx_modelFactory exampleContext) (FromSchema (Schema ''node'' ''d'' [])) exampleFirst"

text \<open>
  The example state in which the element \<^verbatim>\<open>c\<close> of the new tree has no parent, and a
  directive that removes this element.
\<close>

definition exampleDetached :: state where
  "exampleDetached = modify 5 (\<lambda>e. e\<lparr>parent := None\<rparr>) exampleState"

definition exampleRemoval :: "schema match" where
  "exampleRemoval =
     \<lparr>left = Some (Schema ''node'' ''c'' []), leftParentId = Some ''graph'',
      right = None, rightParentId = None\<rparr>"

section \<open>Listener registration\<close>

lemma on_duplicate_throws:
  assumes "vnode_data v = Some d" and "data_on d = Some obj" and "obj event = Some l0"
  shows "on v event listener elem =
           Inl (Error (''EventListener for '' @ event @ '' already registered on VNode''))"
  using assms by (simp add: on_def getOn_def getData_def truthyGet_def)

lemma on_fresh_succeeds:
  assumes "vnode_data v = Some d" and "data_on d = Some obj" and "obj event = None"
    and "event \<notin> set objectPrototypeNames"
  shows "on v event listener elem =
           Inr (v\<lparr>vnode_data := Some (d\<lparr>data_on := Some (obj(event \<mapsto> ListenerAndElement listener elem))\<rparr>)\<rparr>)"
  using assms by (simp add: on_def getOn_def getData_def truthyGet_def)

text \<open>
  C9. Registering a listener for an event that already has one on the node throws, and
  registering for an event that has none succeeds when the name of the event is not the
  name of a property that a plain object inherits (the two lemmas above). For such a
  name the registration throws although no listener is registered: on a node without
  any listener, \<^verbatim>\<open>on[''constructor'']\<close> reads the inherited constructor function, which is
  truthy.
\<close>

theorem on_inherited_name_throws:
  "on \<lparr>vnode_sel = ''g'', vnode_data = None\<rparr> ''constructor'' listener elem
     = Inl (Error ''EventListener for constructor already registered on VNode'')"
  by (simp add: on_def getOn_def getData_def truthyGet_def objectPrototypeNames_def Let_def)


section \<open>Delta computation for a matched pair\<close>

lemma heap_modify: "heap (modify a f st) b = (if b = a then f (heap st a) else heap st b)"
  by (simp add: modify_def)

lemma next_modify: "next (modify a f st) = next st"
  by (simp add: modify_def)

lemmas example_defs = exampleState_def exampleHeap_def exampleNearState_def exampleImported_def
  almostEqualsSpec_def isValidDimensionSpec_def blankElement_def

lemma updateSelected_frame:
  "position (heap (updateSelected l r st) a) = position (heap st a)"
  "bounds (heap (updateSelected l r st) a) = bounds (heap st a)"
  by (simp_all add: updateSelected_def heap_modify)

lemma updateCanvasBounds_frame:
  "position (heap (updateCanvasBounds l r st) a) = position (heap st a)"
  "bounds (heap (updateCanvasBounds l r st) a) = bounds (heap st a)"
  by (simp_all add: updateCanvasBounds_def heap_modify)

lemma updateViewport_frame:
  "position (heap (updateViewport l r st) a) = position (heap st a)"
  "bounds (heap (updateViewport l r st) a) = bounds (heap st a)"
  by (simp_all add: updateViewport_def heap_modify)

lemma updateBounds_frame:
  assumes "updateBounds imp l r (d, st) = (d', st')"
  shows "moves d' = moves d" and "fades d' = fades d"
    and "position (heap st' a) = position (heap st a)"
  using assms
  by (auto simp: updateBounds_def heap_modify split: option.splits if_splits)

lemma updatePosition_frame:
  assumes "updatePosition imp l r (d, st) = (d', st')"
  shows "resizes d' = resizes d" and "fades d' = fades d"
    and "bounds (heap st' a) = bounds (heap st a)"
  using assms
  by (auto simp: updatePosition_def heap_modify split: option.splits if_splits)

lemma updatePosition_result:
  assumes "position (heap st l) = Some leftPos" and "position (heap st r) = Some rightPos"
  shows "updatePosition imp l r (d, st) =
     (if almostEquals imp (point_x leftPos) (point_x rightPos)
          \<and> almostEquals imp (point_y leftPos) (point_y rightPos)
      then (d, st)
      else (d\<lparr>moves := Some ((case moves d of None \<Rightarrow> [] | Some ms \<Rightarrow> ms)
                   @ [\<lparr>move_element = r, move_elementId = elem_id (heap st r),
                       fromPosition = leftPos, toPosition = rightPos\<rparr>])\<rparr>,
            modify r (\<lambda>e. e\<lparr>position := Some leftPos\<rparr>) st))"
  using assms by (simp add: updatePosition_def isLocateable_def)

lemma updateBounds_result:
  assumes "bounds (heap st l) = Some leftBounds" and "bounds (heap st r) = Some rightBounds"
  shows "updateBounds imp l r (d, st) =
     (if \<not> isValidDimension imp rightBounds
      then (d, modify r (\<lambda>e. e\<lparr>bounds := Some
                      \<lparr>bounds_x = bounds_x rightBounds, bounds_y = bounds_y rightBounds,
                       bounds_width = bounds_width leftBounds,
                       bounds_height = bounds_height leftBounds\<rparr>\<rparr>) st)
      else if almostEquals imp (bounds_width leftBounds) (bounds_width rightBounds)
              \<and> almostEquals imp (bounds_height leftBounds) (bounds_height rightBounds)
      then (d, st)
      else (d\<lparr>resizes := Some ((case resizes d of None \<Rightarrow> [] | Some rs \<Rightarrow> rs)
                       @ [\<lparr>resize_element = r,
                           fromDimension = \<lparr>dim_width = bounds_width leftBounds,
                                            dim_height = bounds_height leftBounds\<rparr>,
                           toDimension = \<lparr>dim_width = bounds_width rightBounds,
                                          dim_height = bounds_height rightBounds\<rparr>\<rparr>])\<rparr>, st))"
  using assms by (simp add: updateBounds_def isBoundsAware_def)

text \<open>
  C2. For a matched pair of an old element \<open>l\<close> and a new element \<open>r\<close> that both have a
  position: when the two positions are almost equal in both coordinates,
  \<^verbatim>\<open>updateElement\<close> records no move and leaves the position of \<open>r\<close> as it is; when they
  are not, it appends exactly one move for \<open>r\<close>, from the old position to the new one, and
  resets the position of \<open>r\<close> to the old position.
\<close>

theorem updateElement_move:
  assumes l: "position (heap st l) = Some leftPos" and r: "position (heap st r) = Some rightPos"
    and u: "updateElement imp l r (d, st) = (d', st')"
  shows "(almostEquals imp (point_x leftPos) (point_x rightPos)
            \<and> almostEquals imp (point_y leftPos) (point_y rightPos)
          \<longrightarrow> moves d' = moves d \<and> position (heap st' r) = Some rightPos)
       \<and> (\<not> (almostEquals imp (point_x leftPos) (point_x rightPos)
            \<and> almostEquals imp (point_y leftPos) (point_y rightPos))
          \<longrightarrow> moves d' = Some ((case moves d of None \<Rightarrow> [] | Some ms \<Rightarrow> ms)
                   @ [\<lparr>move_element = r, move_elementId = elem_id (heap st r),
                       fromPosition = leftPos, toPosition = rightPos\<rparr>])
              \<and> position (heap st' r) = Some leftPos)"
proof -
  obtain d1 st1 where p: "updatePosition imp l r (d, st) = (d1, st1)"
    by (cases "updatePosition imp l r (d, st)")
  obtain d2 st2 where b: "updateBounds imp l r (d1, st1) = (d2, st2)"
    by (cases "updateBounds imp l r (d1, st1)")
  from u p b have d': "d' = d2"
    and st': "st' = updateViewport l r (updateCanvasBounds l r (updateSelected l r st2))"
    by (simp_all add: updateElement_def)
  have m: "moves d' = moves d1"
    using updateBounds_frame(1)[OF b] d' by simp
  have pos: "position (heap st' r) = position (heap st1 r)"
    using updateBounds_frame(3)[OF b]
    by (simp add: st' updateViewport_frame updateCanvasBounds_frame updateSelected_frame)
  show ?thesis
    using p m pos r unfolding updatePosition_result[OF l r]
    by (auto simp: heap_modify split: if_splits)
qed

theorem updateElement_move_witness:
  "moves (fst (updateElement exampleImported 1 4 (\<lparr>fades = [], moves = None, resizes = None\<rparr>, exampleState)))
     = Some [\<lparr>move_element = 4, move_elementId = ''a'',
              fromPosition = \<lparr>point_x = 0, point_y = 0\<rparr>,
              toPosition = \<lparr>point_x = 10, point_y = 0\<rparr>\<rparr>]
   \<and> position (heap (snd (updateElement exampleImported 1 4
          (\<lparr>fades = [], moves = None, resizes = None\<rparr>, exampleState))) 4)
     = Some \<lparr>point_x = 0, point_y = 0\<rparr>
   \<and> moves (fst (updateElement exampleImported 1 4 (\<lparr>fades = [], moves = None, resizes = None\<rparr>, exampleNearState)))
     = None
   \<and> position (heap (snd (updateElement exampleImported 1 4
          (\<lparr>fades = [], moves = None, resizes = None\<rparr>, exampleNearState))) 4)
     = Some \<lparr>point_x = 1 / 2000, point_y = 0\<rparr>"
proof -
  let ?d = "\<lparr>fades = [], moves = None, resizes = None\<rparr>"
  have l: "position (heap exampleState 1) = Some \<lparr>point_x = 0, point_y = 0\<rparr>"
    and r: "position (heap exampleState 4) = Some \<lparr>point_x = 10, point_y = 0\<rparr>"
    and i: "elem_id (heap exampleState 4) = ''a''"
    and l': "position (heap exampleNearState 1) = Some \<lparr>point_x = 0, point_y = 0\<rparr>"
    and r': "position (heap exampleNearState 4) = Some \<lparr>point_x = 1 / 2000, point_y = 0\<rparr>"
    by (simp_all add: example_defs heap_modify)
  have far: "\<not> almostEquals exampleImported 0 10" and near: "almostEquals exampleImported 0 (1 / 2000)"
    and zero: "almostEquals exampleImported 0 0"
    by (simp_all add: example_defs)
  show ?thesis
    using updateElement_move[OF l r surjective_pairing, of exampleImported ?d]
          updateElement_move[OF l' r' surjective_pairing, of exampleImported ?d] far near zero i
    by simp
qed

text \<open>
  C3. For a matched pair of an old element \<open>l\<close> and a new element \<open>r\<close> that both have
  bounds: when the bounds of \<open>r\<close> are not a valid dimension, \<^verbatim>\<open>updateElement\<close> gives \<open>r\<close>
  the width and the height of \<open>l\<close>, keeps its \<open>x\<close> and \<open>y\<close>, and records no resize; when
  they are valid and the widths or the heights are not almost equal, it appends exactly
  one resize for \<open>r\<close>, from the old dimension to the new one.
\<close>

theorem updateElement_resize:
  assumes l: "bounds (heap st l) = Some leftBounds" and r: "bounds (heap st r) = Some rightBounds"
    and u: "updateElement imp l r (d, st) = (d', st')"
  shows "(\<not> isValidDimension imp rightBounds
          \<longrightarrow> bounds (heap st' r) = Some
                 \<lparr>bounds_x = bounds_x rightBounds, bounds_y = bounds_y rightBounds,
                  bounds_width = bounds_width leftBounds,
                  bounds_height = bounds_height leftBounds\<rparr>
              \<and> resizes d' = resizes d)
       \<and> (isValidDimension imp rightBounds
            \<and> (\<not> almostEquals imp (bounds_width leftBounds) (bounds_width rightBounds)
               \<or> \<not> almostEquals imp (bounds_height leftBounds) (bounds_height rightBounds))
          \<longrightarrow> resizes d' = Some ((case resizes d of None \<Rightarrow> [] | Some rs \<Rightarrow> rs)
                   @ [\<lparr>resize_element = r,
                       fromDimension = \<lparr>dim_width = bounds_width leftBounds,
                                        dim_height = bounds_height leftBounds\<rparr>,
                       toDimension = \<lparr>dim_width = bounds_width rightBounds,
                                      dim_height = bounds_height rightBounds\<rparr>\<rparr>])
              \<and> bounds (heap st' r) = Some rightBounds)"
proof -
  obtain d1 st1 where p: "updatePosition imp l r (d, st) = (d1, st1)"
    by (cases "updatePosition imp l r (d, st)")
  obtain d2 st2 where b: "updateBounds imp l r (d1, st1) = (d2, st2)"
    by (cases "updateBounds imp l r (d1, st1)")
  from u p b have d': "d' = d2"
    and st': "st' = updateViewport l r (updateCanvasBounds l r (updateSelected l r st2))"
    by (simp_all add: updateElement_def)
  have l1: "bounds (heap st1 l) = Some leftBounds" and r1: "bounds (heap st1 r) = Some rightBounds"
    using updatePosition_frame(3)[OF p] l r by simp_all
  have rz: "resizes d1 = resizes d"
    using updatePosition_frame(1)[OF p] .
  have bnd: "bounds (heap st' r) = bounds (heap st2 r)"
    by (simp add: st' updateViewport_frame updateCanvasBounds_frame updateSelected_frame)
  show ?thesis
    using b rz bnd r1 d' unfolding updateBounds_result[OF l1 r1]
    by (auto simp: heap_modify split: if_splits)
qed

theorem updateElement_resize_witness:
  "bounds (heap (snd (updateElement exampleImported 1 4
          (\<lparr>fades = [], moves = None, resizes = None\<rparr>, exampleState))) 4)
     = Some \<lparr>bounds_x = 10, bounds_y = 0, bounds_width = 5, bounds_height = 5\<rparr>
   \<and> resizes (fst (updateElement exampleImported 1 4
          (\<lparr>fades = [], moves = None, resizes = None\<rparr>, exampleState))) = None
   \<and> resizes (fst (updateElement exampleImported 1 4
          (\<lparr>fades = [], moves = None, resizes = None\<rparr>, exampleNearState)))
     = Some [\<lparr>resize_element = 4,
              fromDimension = \<lparr>dim_width = 5, dim_height = 5\<rparr>,
              toDimension = \<lparr>dim_width = 9, dim_height = 5\<rparr>\<rparr>]"
proof -
  let ?d = "\<lparr>fades = [], moves = None, resizes = None\<rparr>"
  have l: "bounds (heap exampleState 1)
             = Some \<lparr>bounds_x = 0, bounds_y = 0, bounds_width = 5, bounds_height = 5\<rparr>"
    and r: "bounds (heap exampleState 4)
             = Some \<lparr>bounds_x = 10, bounds_y = 0, bounds_width = -1, bounds_height = -1\<rparr>"
    and l': "bounds (heap exampleNearState 1)
             = Some \<lparr>bounds_x = 0, bounds_y = 0, bounds_width = 5, bounds_height = 5\<rparr>"
    and r': "bounds (heap exampleNearState 4)
             = Some \<lparr>bounds_x = 0, bounds_y = 0, bounds_width = 9, bounds_height = 5\<rparr>"
    by (simp_all add: example_defs heap_modify)
  have invalid: "\<not> isValidDimension exampleImported
                     \<lparr>bounds_x = 10, bounds_y = 0, bounds_width = -1, bounds_height = -1\<rparr>"
    and valid: "isValidDimension exampleImported
                     \<lparr>bounds_x = 0, bounds_y = 0, bounds_width = 9, bounds_height = 5\<rparr>"
    and differ: "\<not> almostEquals exampleImported 5 9"
    by (simp_all add: example_defs)
  show ?thesis
    using updateElement_resize[OF l r surjective_pairing, of exampleImported ?d]
          updateElement_resize[OF l' r' surjective_pairing, of exampleImported ?d]
          invalid valid differ
    by simp
qed

section \<open>Selection of the animation\<close>

lemma length_createAnimations:
  "length (createAnimations d rt st) = nonEmptySequences d"
  by (simp add: createAnimations_def nonEmptySequences_def split: option.splits)

lemma concrete_createAnimations:
  "list_all isConcrete (createAnimations d rt st)"
  by (simp add: createAnimations_def split: option.splits)

lemmas run_defs = collectAnimationData_def processMatch_def updateElement_def updatePosition_def
  updateBounds_def updateSelected_def updateCanvasBounds_def updateViewport_def
  isFadeable_def isSelectable_def isLocateable_def isBoundsAware_def getById_def add_def
  heap_modify exampleContext_def exampleFactory_def allocate_def

text \<open>
  C1. Let \<open>d\<close> be the animation data that the loop of \<^verbatim>\<open>computeAnimation\<close> has collected
  (the pass that \<^verbatim>\<open>performUpdate\<close> runs when animation is enabled and the root identifiers
  are equal). When none of the sequences fades, moves and resizes of \<open>d\<close> is non-empty,
  \<^verbatim>\<open>computeAnimation\<close> returns the new root itself; when exactly one is, it returns the one
  animation of that category; when two or more are, it returns a compound animation with
  as many children as there are non-empty sequences, none of them compound.
\<close>

theorem computeAnimation_selection:
  assumes c: "collectAnimationData imp ctx nr mr st = (d, st1)"
  shows "(nonEmptySequences d = 0 \<longrightarrow> computeAnimation imp nr mr ctx st = (IsRoot nr, st1))
       \<and> (nonEmptySequences d = 1 \<longrightarrow>
            computeAnimation imp nr mr ctx st =
              (IsAnimation
                 (if fades d \<noteq> [] then FadeAnimation nr (fades d) True
                  else if moves d \<noteq> None \<and> moves d \<noteq> Some []
                  then MoveAnimation nr (toMovesMap (the (moves d))) False
                  else ResizeAnimation nr (toResizesMap st1 (the (resizes d))) False),
               st1))
       \<and> (nonEmptySequences d \<ge> 2 \<longrightarrow>
            (\<exists>as. computeAnimation imp nr mr ctx st = (IsAnimation (CompoundAnimation nr as), st1)
                  \<and> length as = nonEmptySequences d \<and> list_all isConcrete as))"
proof -
  have one: "nonEmptySequences d = 1 \<Longrightarrow>
       createAnimations d nr st1 =
         [if fades d \<noteq> [] then FadeAnimation nr (fades d) True
          else if moves d \<noteq> None \<and> moves d \<noteq> Some []
          then MoveAnimation nr (toMovesMap (the (moves d))) False
          else ResizeAnimation nr (toResizesMap st1 (the (resizes d))) False]"
    by (auto simp: createAnimations_def nonEmptySequences_def split: option.splits if_splits)
  show ?thesis
    using c one length_createAnimations[of d nr st1] concrete_createAnimations[of d nr st1]
    by (auto simp: computeAnimation_def)
qed

theorem computeAnimation_selection_witness:
  "fst (computeAnimation exampleImported 3 [] exampleContext exampleState) = IsRoot 3
   \<and> fst (computeAnimation exampleImported 3 exampleMoved exampleContext exampleState)
       = IsAnimation (MoveAnimation 3
           [(''a'', \<lparr>move_element = 4, move_elementId = ''a'',
                     fromPosition = \<lparr>point_x = 0, point_y = 0\<rparr>,
                     toPosition = \<lparr>point_x = 10, point_y = 0\<rparr>\<rparr>)] False)
   \<and> (\<exists>as. fst (computeAnimation exampleImported 3 exampleMovedAndAdded exampleContext exampleState)
               = IsAnimation (CompoundAnimation 3 as) \<and> length as = 2)"
proof -
  let ?c0 = "collectAnimationData exampleImported exampleContext 3 [] exampleState"
  let ?c1 = "collectAnimationData exampleImported exampleContext 3 exampleMoved exampleState"
  let ?c2 = "collectAnimationData exampleImported exampleContext 3 exampleMovedAndAdded exampleState"
  have d0: "fst ?c0 = \<lparr>fades = [], moves = None, resizes = None\<rparr>"
    by (simp add: collectAnimationData_def)
  have d1: "fst ?c1 = \<lparr>fades = [], moves = Some [\<lparr>move_element = 4, move_elementId = ''a'',
                     fromPosition = \<lparr>point_x = 0, point_y = 0\<rparr>,
                     toPosition = \<lparr>point_x = 10, point_y = 0\<rparr>\<rparr>], resizes = None\<rparr>"
    by (simp add: run_defs example_defs exampleMoved_def)
  have d2: "fst ?c2 = \<lparr>fades = [\<lparr>fade_element = 5, fade_type = FadeIn\<rparr>],
                     moves = Some [\<lparr>move_element = 4, move_elementId = ''a'',
                     fromPosition = \<lparr>point_x = 0, point_y = 0\<rparr>,
                     toPosition = \<lparr>point_x = 10, point_y = 0\<rparr>\<rparr>], resizes = None\<rparr>"
    by (simp add: run_defs example_defs exampleMovedAndAdded_def)
  have n: "nonEmptySequences (fst ?c0) = 0" "nonEmptySequences (fst ?c1) = 1"
      "nonEmptySequences (fst ?c2) = 2"
    by (simp_all add: d0 d1 d2 nonEmptySequences_def)
  have r0: "computeAnimation exampleImported 3 [] exampleContext exampleState = (IsRoot 3, snd ?c0)"
    using computeAnimation_selection[OF surjective_pairing, of exampleImported exampleContext 3 "[]" exampleState]
      n(1) by blast
  have r1: "fst (computeAnimation exampleImported 3 exampleMoved exampleContext exampleState)
       = IsAnimation (MoveAnimation 3 (toMovesMap (the (moves (fst ?c1)))) False)"
    using computeAnimation_selection[OF surjective_pairing, of exampleImported exampleContext 3
        exampleMoved exampleState] n(2) d1 by simp
  have r2: "\<exists>as. computeAnimation exampleImported 3 exampleMovedAndAdded exampleContext exampleState
                = (IsAnimation (CompoundAnimation 3 as), snd ?c2) \<and> length as = 2"
    using computeAnimation_selection[OF surjective_pairing, of exampleImported exampleContext 3
        exampleMovedAndAdded exampleState] n(3) by auto
  show ?thesis
    using r0 r1 r2 by (auto simp: d1 toMovesMap_def)
qed

section \<open>Updates without animation\<close>

text \<open>
  C6. When the animate flag of the action is not true, or the identifiers of the old and
  the new root differ, \<^verbatim>\<open>performUpdate\<close> returns the new root at once, and the only change
  of the store is that the new root has the canvas bounds of the old root: nothing is
  matched, no delta is computed and no animation is made. The constructor of the command
  sets an undefined animate flag to true and leaves a defined one, and the constructor of
  the action sets it to true.
\<close>

theorem performUpdate_instantaneous:
  "(animate (cmd_action cmd) \<noteq> Some True \<or> elem_id (heap st oldR) \<noteq> elem_id (heap st newR)
      \<longrightarrow> performUpdate imp cmd oldR newR ctx st
            = (ResultRoot newR,
               modify newR (\<lambda>e. e\<lparr>canvasBounds := canvasBounds (heap st oldR)\<rparr>) st))
   \<and> (animate a = None \<longrightarrow> animate (cmd_action (UpdateModelCommand a)) = Some True)
   \<and> (animate a \<noteq> None \<longrightarrow> animate (cmd_action (UpdateModelCommand a)) = animate a)
   \<and> animate (UpdateModelAction nr) = Some True"
  by (auto simp: performUpdate_def UpdateModelCommand_def UpdateModelAction_def)

theorem performUpdate_instantaneous_witness:
  "performUpdate exampleImported (UpdateModelCommand (exampleAction\<lparr>animate := Some False\<rparr>)) 0 3
       exampleContext exampleState
     = (ResultRoot 3,
        modify 3 (\<lambda>e. e\<lparr>canvasBounds :=
            Some \<lparr>bounds_x = 0, bounds_y = 0, bounds_width = 800, bounds_height = 600\<rparr>\<rparr>) exampleState)
   \<and> performUpdate exampleImported (UpdateModelCommand exampleAction) 0 3
       exampleContext exampleRenamedState
     = (ResultRoot 3,
        modify 3 (\<lambda>e. e\<lparr>canvasBounds :=
            Some \<lparr>bounds_x = 0, bounds_y = 0, bounds_width = 800, bounds_height = 600\<rparr>\<rparr>)
          exampleRenamedState)
   \<and> animate (cmd_action (UpdateModelCommand exampleAction)) = Some True
   \<and> animate (cmd_action (UpdateModelCommand (exampleAction\<lparr>animate := Some False\<rparr>))) = Some False"
proof -
  have a: "animate exampleAction = None" "animate (exampleAction\<lparr>animate := Some False\<rparr>) = Some False"
    by (simp_all add: exampleAction_def)
  have ids: "elem_id (heap exampleRenamedState 0) \<noteq> elem_id (heap exampleRenamedState 3)"
    and cb: "canvasBounds (heap exampleState 0)
               = Some \<lparr>bounds_x = 0, bounds_y = 0, bounds_width = 800, bounds_height = 600\<rparr>"
       "canvasBounds (heap exampleRenamedState 0)
               = Some \<lparr>bounds_x = 0, bounds_y = 0, bounds_width = 800, bounds_height = 600\<rparr>"
    by (simp_all add: example_defs exampleRenamedState_def heap_modify)
  show ?thesis
    using performUpdate_instantaneous[of "UpdateModelCommand (exampleAction\<lparr>animate := Some False\<rparr>)"
            exampleState 0 3 exampleImported exampleContext "exampleAction\<lparr>animate := Some False\<rparr>" None]
          performUpdate_instantaneous[of "UpdateModelCommand exampleAction"
            exampleRenamedState 0 3 exampleImported exampleContext exampleAction None]
          a ids cb
    by simp
qed

section \<open>Conversion of match directives\<close>

lemma convertMatch_fst: "fst (convertMatch m lr rr st) = matchKey m"
  by (simp add: convertMatch_def matchKey_def split: option.splits)

lemma convertMatch_snd:
  "left (snd (convertMatch m lr rr st))
     = (case left m of Some s \<Rightarrow> getById st lr (schema_id s) | None \<Rightarrow> None)"
  "right (snd (convertMatch m lr rr st))
     = (case right m of Some s \<Rightarrow> getById st rr (schema_id s) | None \<Rightarrow> None)"
  by (simp_all add: convertMatch_def Let_def split: option.splits)

lemma set_update_cases:
  "(k', v') \<in> set (AList.update k v al) \<Longrightarrow> (k' = k \<and> v' = v) \<or> (k', v') \<in> set al"
  by (induction al) (auto split: if_splits)


lemma convert_foldl_entries:
  assumes "(k, c) \<in> set (foldl (\<lambda>result m. case convertMatch m lr rr st of
                          (Some i, converted) \<Rightarrow>
                            if i = ''__proto__'' then result
                            else AList.update i converted result
                        | (None, converted) \<Rightarrow> result) acc ms)"
  shows "(k, c) \<in> set acc
         \<or> (\<exists>m \<in> set ms. matchKey m = Some k \<and> c = snd (convertMatch m lr rr st))"
  using assms
proof (induction ms arbitrary: acc)
  case Nil
  then show ?case by simp
next
  case (Cons m ms)
  obtain i c' where cm: "convertMatch m lr rr st = (i, c')"
    by (cases "convertMatch m lr rr st")
  then have k: "matchKey m = i"
    using convertMatch_fst[of m lr rr st] by simp
  have keep: "(k, c) \<in> set acc
         \<or> (\<exists>m \<in> set ms. matchKey m = Some k \<and> c = snd (convertMatch m lr rr st))"
    if "(k, c) \<in> set (foldl (\<lambda>result m. case convertMatch m lr rr st of
                          (Some i, converted) \<Rightarrow>
                            if i = ''__proto__'' then result
                            else AList.update i converted result
                        | (None, converted) \<Rightarrow> result) acc ms)"
    using Cons.IH[of acc] that by simp
  show ?case
  proof (cases i)
    case None
    with Cons.prems cm keep show ?thesis by auto
  next
    case (Some j)
    show ?thesis
    proof (cases "j = ''__proto__''")
      case True
      with Cons.prems cm Some keep show ?thesis by auto
    next
      case False
      with Cons.prems cm Some have "(k, c) \<in> set (AList.update j c' acc)
           \<or> (\<exists>m \<in> set ms. matchKey m = Some k \<and> c = snd (convertMatch m lr rr st))"
        using Cons.IH[of "AList.update j c' acc"] by simp
      then show ?thesis
        using set_update_cases[of k c j c' acc] cm k Some by auto
    qed
  qed
qed







section \<open>The old tree is not written\<close>

lemma exampleFactory_allocates: "factoryAllocatesOnly exampleFactory"
  by (auto simp: factoryAllocatesOnly_def exampleFactory_def allocate_def split: source.splits)

lemma updateElement_writes:
  assumes "updateElement imp l r (d, st) = (d', st')"
  shows "next st' = next st" and "a \<noteq> r \<Longrightarrow> heap st' a = heap st a"
    and "index (heap st' a) = index (heap st a)"
proof -
  obtain d1 st1 where p: "updatePosition imp l r (d, st) = (d1, st1)"
    by (cases "updatePosition imp l r (d, st)")
  obtain d2 st2 where b: "updateBounds imp l r (d1, st1) = (d2, st2)"
    by (cases "updateBounds imp l r (d1, st1)")
  from assms p b have st': "st' = updateViewport l r (updateCanvasBounds l r (updateSelected l r st2))"
    by (simp add: updateElement_def)
  have p1: "next st1 = next st" "a \<noteq> r \<Longrightarrow> heap st1 a = heap st a"
      "index (heap st1 a) = index (heap st a)"
    using p by (auto simp: updatePosition_def heap_modify next_modify split: option.splits if_splits)
  have p2: "next st2 = next st1" "a \<noteq> r \<Longrightarrow> heap st2 a = heap st1 a"
      "index (heap st2 a) = index (heap st1 a)"
    using b by (auto simp: updateBounds_def heap_modify next_modify split: option.splits if_splits)
  have p3: "next (updateSelected l r s) = next s" "a \<noteq> r \<Longrightarrow> heap (updateSelected l r s) a = heap s a"
      "index (heap (updateSelected l r s) a) = index (heap s a)" for s
    by (simp_all add: updateSelected_def heap_modify next_modify)
  have p4: "next (updateCanvasBounds l r s) = next s"
      "a \<noteq> r \<Longrightarrow> heap (updateCanvasBounds l r s) a = heap s a"
      "index (heap (updateCanvasBounds l r s) a) = index (heap s a)" for s
    by (simp_all add: updateCanvasBounds_def heap_modify next_modify)
  have p5: "next (updateViewport l r s) = next s"
      "a \<noteq> r \<Longrightarrow> heap (updateViewport l r s) a = heap s a"
      "index (heap (updateViewport l r s) a) = index (heap s a)" for s
    by (simp_all add: updateViewport_def heap_modify next_modify)
  show "next st' = next st"
    by (simp add: st' p1 p2 p3 p4 p5)
  show "a \<noteq> r \<Longrightarrow> heap st' a = heap st a"
    by (simp add: st' p1 p2 p3 p4 p5)
  show "index (heap st' a) = index (heap st a)"
    by (simp add: st' p1 p2 p3 p4 p5)
qed

lemma factoryAllocatesOnlyD:
  assumes "factoryAllocatesOnly f"
  shows "next st \<le> fst (createElement f src st)"
    and "next st \<le> next (snd (createElement f src st))"
    and "b < next st \<Longrightarrow> heap (snd (createElement f src st)) b = heap st b"
proof -
  have "case createElement f src st of
                  (a, st') \<Rightarrow> next st \<le> a \<and> next st \<le> next st'
                             \<and> (\<forall>b. b < next st \<longrightarrow> heap st' b = heap st b)"
    by (rule assms[unfolded factoryAllocatesOnly_def, rule_format])
  then show "next st \<le> fst (createElement f src st)"
    and "next st \<le> next (snd (createElement f src st))"
    and "b < next st \<Longrightarrow> heap (snd (createElement f src st)) b = heap st b"
    by (cases "createElement f src st"; simp)+
qed

lemma frameInv_step:
  assumes inv: "frameInv st0 N nr st"
    and n: "next st \<le> next st'"
    and h: "\<And>a. a < next st0 \<Longrightarrow> a \<notin> N \<Longrightarrow> heap st' a = heap st a"
    and ix: "\<And>i p. index (heap st' nr) i = Some p
                \<Longrightarrow> index (heap st nr) i = Some p \<or> next st0 \<le> p"
  shows "frameInv st0 N nr st'"
  unfolding frameInv_def
proof (intro conjI allI impI)
  show "next st0 \<le> next st'"
    using inv n by (simp add: frameInv_def)
next
  fix a assume "a < next st0 \<and> a \<notin> N"
  then show "heap st' a = heap st0 a"
    using inv h[of a] by (simp add: frameInv_def)
next
  fix i p assume "index (heap st' nr) i = Some p"
  from ix[OF this] show "p \<in> N \<or> next st0 \<le> p"
    using inv by (auto simp: frameInv_def)
qed

lemma processMatch_frame:
  assumes fac: "factoryAllocatesOnly (ctx_modelFactory ctx)"
    and nr: "nr \<in> N" "nr < next st0"
    and rightN: "\<And>r. right m = Some r \<Longrightarrow> r \<in> N \<or> next st0 \<le> r"
    and inv: "frameInv st0 N nr st"
    and step: "processMatch imp ctx nr (d, st) m = (d', st')"
  shows "frameInv st0 N nr st'"
proof (cases "right m")
  case (Some r)
  note r = rightN[OF Some]
  show ?thesis
  proof (cases "left m")
    case None
    with Some step have "st' = st \<or> st' = modify r (\<lambda>e. e\<lparr>opacity := Some 0\<rparr>) st"
      by (auto simp: processMatch_def split: if_splits)
    then show ?thesis
    proof
      assume "st' = st"
      with inv show ?thesis by simp
    next
      assume st': "st' = modify r (\<lambda>e. e\<lparr>opacity := Some 0\<rparr>) st"
      show ?thesis
      proof (rule frameInv_step[OF inv])
        show "next st \<le> next st'" by (simp add: st' next_modify)
        show "heap st' a = heap st a" if "a < next st0" "a \<notin> N" for a
          using that r by (auto simp: st' heap_modify)
        show "index (heap st nr) i = Some p \<or> next st0 \<le> p"
          if "index (heap st' nr) i = Some p" for i p
          using that by (simp add: st' heap_modify split: if_splits)
      qed
    qed
  next
    case (Some l)
    with \<open>right m = Some r\<close> step have u: "updateElement imp l r (d, st) = (d', st')"
      by (simp add: processMatch_def)
    show ?thesis
    proof (rule frameInv_step[OF inv])
      show "next st \<le> next st'" by (simp add: updateElement_writes(1)[OF u])
      show "heap st' a = heap st a" if "a < next st0" "a \<notin> N" for a
        using that r updateElement_writes(2)[OF u, of a] by auto
      show "index (heap st nr) i = Some p \<or> next st0 \<le> p"
        if "index (heap st' nr) i = Some p" for i p
        using that by (simp add: updateElement_writes(3)[OF u])
    qed
  qed
next
  case None
  show ?thesis
  proof (cases "st' = st")
    case True
    with inv show ?thesis by simp
  next
    case False
    with None step obtain l pid p where m: "left m = Some l" "leftParentId m = Some pid"
      and p: "getById st nr pid = Some p"
      and st': "st' = add nr p (fst (createElement (ctx_modelFactory ctx) (FromElement l) st))
                       (snd (createElement (ctx_modelFactory ctx) (FromElement l) st))"
      by (auto simp: processMatch_def split: option.splits if_splits prod.splits)
    let ?g = "fst (createElement (ctx_modelFactory ctx) (FromElement l) st)"
    let ?s1 = "snd (createElement (ctx_modelFactory ctx) (FromElement l) st)"
    note f = factoryAllocatesOnlyD[OF fac, where st = st and src = "FromElement l"]
    from inv have i: "next st0 \<le> next st"
        "\<And>i p. index (heap st nr) i = Some p \<Longrightarrow> p \<in> N \<or> next st0 \<le> p"
      by (auto simp: frameInv_def)
    from p i(2) have pN: "p \<in> N \<or> next st0 \<le> p"
      by (simp add: getById_def)
    have nr1: "heap ?s1 nr = heap st nr"
      using f(3)[of nr] nr(2) i(1) by simp
    show ?thesis
    proof (rule frameInv_step[OF inv])
      show "next st \<le> next st'"
        using f(2) by (simp add: st' add_def next_modify Let_def)
      show "heap st' a = heap st a" if a: "a < next st0" "a \<notin> N" for a
      proof -
        from a have "a \<noteq> p" "a \<noteq> ?g" "a \<noteq> nr"
          using pN f(1) i(1) nr(1) by auto
        then have "heap st' a = heap ?s1 a"
          by (simp add: st' add_def heap_modify Let_def)
        also have "\<dots> = heap st a"
          using f(3)[of a] a i(1) by simp
        finally show ?thesis .
      qed
      show "index (heap st nr) j = Some q \<or> next st0 \<le> q"
        if q: "index (heap st' nr) j = Some q" for j q
      proof -
        from q have "q = ?g \<or> index (heap ?s1 nr) j = Some q"
          by (auto simp: st' add_def heap_modify Let_def split: if_splits)
        then show ?thesis
          using nr1 f(1) i(1) by auto
      qed
    qed
  qed
qed

lemma collect_frame:
  assumes fac: "factoryAllocatesOnly (ctx_modelFactory ctx)"
    and nr: "nr \<in> N" "nr < next st0"
    and rightN: "\<And>i m r. map_of mr i = Some m \<Longrightarrow> right m = Some r \<Longrightarrow> r \<in> N \<or> next st0 \<le> r"
    and inv: "frameInv st0 N nr st"
  shows "frameInv st0 N nr
           (snd (foldl (\<lambda>acc i. case map_of mr i of
                                   Some m \<Rightarrow> processMatch imp ctx nr acc m
                                 | None \<Rightarrow> acc) (d, st) ks))"
  using inv
proof (induction ks arbitrary: d st)
  case Nil
  then show ?case by simp
next
  case (Cons k ks)
  show ?case
  proof (cases "map_of mr k")
    case None
    with Cons show ?thesis by simp
  next
    case (Some m)
    obtain d' st' where s: "processMatch imp ctx nr (d, st) m = (d', st')"
      by (cases "processMatch imp ctx nr (d, st) m")
    have "frameInv st0 N nr st'"
      using processMatch_frame[OF fac nr _ Cons.prems s] rightN[OF Some] by blast
    from Cons.IH[OF this] Some s show ?thesis by simp
  qed
qed

lemma frameInv_refl:
  assumes "\<And>i p. getById st nr i = Some p \<Longrightarrow> p \<in> N"
  shows "frameInv st N nr st"
  using assms by (simp add: frameInv_def getById_def)

lemma convertToMatchResult_right:
  assumes "map_of (convertToMatchResult ms lr rr st) i = Some m" and "right m = Some r"
  shows "\<exists>j. getById st rr j = Some r"
proof -
  from assms(1) have "(i, m) \<in> set (convertToMatchResult ms lr rr st)"
    by (rule map_of_SomeD)
  then obtain m0 where "m = snd (convertMatch m0 lr rr st)"
    using convert_foldl_entries[of i m lr rr st "[]" ms] by (auto simp: convertToMatchResult_def)
  with assms(2) show ?thesis
    by (auto simp: convertMatch_snd split: option.splits)
qed

text \<open>
  C10. Let \<open>N\<close> hold the elements of the new tree: the new root, which is allocated,
  every element that the index of the new root leads to, and every new-side element of
  the match result of the model matcher. Let the model factory only allocate. Then
  \<^verbatim>\<open>performUpdate\<close> leaves every allocated object outside \<open>N\<close> as it was: each of its
  writes goes to an element of the new tree or to an object allocated during the pass,
  and no element of the old tree, which is allocated and outside \<open>N\<close>, is modified.
\<close>

theorem performUpdate_frame:
  assumes fac: "factoryAllocatesOnly (ctx_modelFactory ctx)"
    and nr: "newR \<in> N" "newR < next st"
    and ix: "\<forall>i p. getById st newR i = Some p \<longrightarrow> p \<in> N"
    and mt: "matches (cmd_action cmd) = None
               \<longrightarrow> (\<forall>(i, m) \<in> set (modelMatcher imp st oldR newR). \<forall>r. right m = Some r \<longrightarrow> r \<in> N)"
    and pu: "performUpdate imp cmd oldR newR ctx st = (res, st')"
  shows "\<forall>a. a < next st \<and> a \<notin> N \<longrightarrow> heap st' a = heap st a"
proof (cases "animate (cmd_action cmd) = Some True \<and> elem_id (heap st oldR) = elem_id (heap st newR)")
  case False
  with pu have "st' = modify newR (\<lambda>e. e\<lparr>canvasBounds := canvasBounds (heap st oldR)\<rparr>) st"
    by (auto simp: performUpdate_def)
  with nr(1) show ?thesis
    by (auto simp: heap_modify)
next
  case True
  define mr where "mr = (case matches (cmd_action cmd) of
                     None \<Rightarrow> modelMatcher imp st oldR newR
                   | Some ms \<Rightarrow> convertToMatchResult ms oldR newR st)"
  have rightN: "r \<in> N \<or> next st \<le> r" if "map_of mr i = Some m" "right m = Some r" for i m r
  proof (cases "matches (cmd_action cmd)")
    case None
    with that(1) have "(i, m) \<in> set (modelMatcher imp st oldR newR)"
      by (auto simp: mr_def dest: map_of_SomeD)
    with mt None that(2) show ?thesis by blast
  next
    case (Some ms)
    with that have "\<exists>j. getById st newR j = Some r"
      using convertToMatchResult_right[of ms oldR newR st i m r] by (simp add: mr_def)
    with ix show ?thesis by blast
  qed
  have inv0: "frameInv st N newR st"
    using ix by (intro frameInv_refl) blast
  from True pu have "st' = snd (computeAnimation imp newR mr ctx st)"
    by (auto simp: performUpdate_def mr_def Let_def split: prod.splits animationOrRoot.splits)
  then have "st' = snd (collectAnimationData imp ctx newR mr st)"
    by (simp add: computeAnimation_def Let_def split: prod.splits)
  then have "frameInv st N newR st'"
    using collect_frame[OF fac nr rightN inv0, where imp = imp
        and d = "\<lparr>fades = [], moves = None, resizes = None\<rparr>" and ks = "map fst mr"]
    by (simp add: collectAnimationData_def)
  then show ?thesis
    by (simp add: frameInv_def)
qed


theorem performUpdate_frame_witness:
  "heap (snd (performUpdate exampleImported (UpdateModelCommand exampleAction) 0 3
            exampleContext exampleState)) 0 = heap exampleState 0
   \<and> heap (snd (performUpdate exampleImported (UpdateModelCommand exampleAction) 0 3
            exampleContext exampleState)) 1 = heap exampleState 1
   \<and> heap (snd (performUpdate exampleImported (UpdateModelCommand exampleAction) 0 3
            exampleContext exampleState)) 2 = heap exampleState 2
   \<and> heap (snd (performUpdate exampleImported
            (UpdateModelCommand (exampleAction\<lparr>matches := Some exampleDirectives\<rparr>)) 0 3
            exampleContext exampleState)) 2 = heap exampleState 2"
proof -
  let ?N = "{3, 4, 5} :: addr set"
  let ?c1 = "UpdateModelCommand exampleAction"
  let ?c2 = "UpdateModelCommand (exampleAction\<lparr>matches := Some exampleDirectives\<rparr>)"
  have fac: "factoryAllocatesOnly (ctx_modelFactory exampleContext)"
    using exampleFactory_allocates by (simp add: exampleContext_def)
  have nr: "3 \<in> ?N" "3 < next exampleState"
    by (simp_all add: exampleState_def)
  have ix: "\<forall>i p. getById exampleState 3 i = Some p \<longrightarrow> p \<in> ?N"
    by (auto simp: getById_def example_defs split: if_splits)
  have m1: "matches (cmd_action ?c1) = None
              \<longrightarrow> (\<forall>(i, m) \<in> set (modelMatcher exampleImported exampleState 0 3).
                    \<forall>r. right m = Some r \<longrightarrow> r \<in> ?N)"
    by (simp add: exampleImported_def exampleMatchResult_def)
  have m2: "matches (cmd_action ?c2) = None
              \<longrightarrow> (\<forall>(i, m) \<in> set (modelMatcher exampleImported exampleState 0 3).
                    \<forall>r. right m = Some r \<longrightarrow> r \<in> ?N)"
    by (simp add: UpdateModelCommand_def exampleAction_def)
  have old: "(0::nat) < next exampleState \<and> 0 \<notin> ?N" "(1::nat) < next exampleState \<and> 1 \<notin> ?N"
      "(2::nat) < next exampleState \<and> 2 \<notin> ?N"
    by (simp_all add: exampleState_def)
  note T1 = performUpdate_frame[OF fac nr ix m1 surjective_pairing, rule_format]
  note T2 = performUpdate_frame[OF fac nr ix m2 surjective_pairing, rule_format]
  show ?thesis
    using T1[OF old(1)] T1[OF old(2)] T1[OF old(3)] T2[OF old(3)] by simp
qed

section \<open>The round trip of undo and redo\<close>

subsection \<open>\<^verbatim>\<open>updateElement\<close> and the loop of \<^verbatim>\<open>computeAnimation\<close>\<close>

lemma modify_modify: "modify a f (modify a g st) = modify a (\<lambda>e. f (g e)) st"
  by (simp add: modify_def)

lemma updatePosition_cell:
  "updatePosition imp l r (d, st) =
    (posData imp (heap st l) (heap st r) r d,
     modify r (\<lambda>_. posCell imp (heap st l) (heap st r)) st)"
  by (simp add: updatePosition_def isLocateable_def modify_def posData_def posCell_def
      split: option.splits)

lemma updateBounds_cell:
  "updateBounds imp l r (d, st) =
    (boundsData imp (heap st l) (heap st r) r d,
     modify r (\<lambda>_. boundsCell imp (heap st l) (heap st r)) st)"
  by (simp add: updateBounds_def isBoundsAware_def modify_def boundsData_def boundsCell_def
      split: option.splits)

lemma updateSelected_cell:
  "updateSelected l r st = modify r (\<lambda>_. selCell (heap st l) (heap st r)) st"
  by (simp add: updateSelected_def modify_def selCell_def)

lemma updateCanvasBounds_cell:
  "updateCanvasBounds l r st = modify r (\<lambda>_. cbCell (heap st l) (heap st r)) st"
  by (simp add: updateCanvasBounds_def modify_def cbCell_def)

lemma updateViewport_cell:
  "updateViewport l r st = modify r (\<lambda>_. vpCell (heap st l) (heap st r)) st"
  by (simp add: updateViewport_def modify_def vpCell_def)

lemma heap_modify_same: "heap (modify a f st) a = f (heap st a)"
  by (simp add: modify_def)

lemma heap_modify_other: "b \<noteq> a \<Longrightarrow> heap (modify a f st) b = heap st b"
  by (simp add: modify_def)

lemma updateElement_cell:
  assumes "l \<noteq> r"
  shows "updateElement imp l r (d, st) =
     (stepData imp (heap st l) (heap st r) r d,
      modify r (\<lambda>_. stepCell imp (heap st l) (heap st r)) st)"
  using assms
  by (simp add: updateElement_def updatePosition_cell updateBounds_cell updateSelected_cell
      updateCanvasBounds_cell updateViewport_cell
      heap_modify_same heap_modify_other modify_modify stepCell_def stepData_def)

lemma payload_eqD:
  "payload e = payload e' \<Longrightarrow> e' = e\<lparr>children := children e', index := index e'\<rparr>"
  by (cases e; cases e') (simp add: payload_def)

lemma payload_fields:
  assumes "payload e = payload e'"
  shows "position e = position e'" "bounds e = bounds e'" "selected e = selected e'"
    "opacity e = opacity e'" "elem_id e = elem_id e'" "elem_class e = elem_class e'"
    "parent e = parent e'" "canvasBounds e = canvasBounds e'" "scroll e = scroll e'"
    "zoom e = zoom e'" "elem_type e = elem_type e'"
  using assms by (cases e; cases e'; simp add: payload_def)+

lemma block_structure:
  "posCell imp el (er\<lparr>children := c, index := i\<rparr>) = (posCell imp el er)\<lparr>children := c, index := i\<rparr>"
  "boundsCell imp el (er\<lparr>children := c, index := i\<rparr>) = (boundsCell imp el er)\<lparr>children := c, index := i\<rparr>"
  "selCell el (er\<lparr>children := c, index := i\<rparr>) = (selCell el er)\<lparr>children := c, index := i\<rparr>"
  "cbCell el (er\<lparr>children := c, index := i\<rparr>) = (cbCell el er)\<lparr>children := c, index := i\<rparr>"
  "vpCell el (er\<lparr>children := c, index := i\<rparr>) = (vpCell el er)\<lparr>children := c, index := i\<rparr>"
  by (simp_all add: posCell_def boundsCell_def selCell_def cbCell_def vpCell_def
      isSelectable_def split: option.splits)

lemma stepCell_structure:
  "stepCell imp el (er\<lparr>children := c, index := i\<rparr>) = (stepCell imp el er)\<lparr>children := c, index := i\<rparr>"
  by (simp add: stepCell_def block_structure)

lemma posCell_keeps:
  "children (posCell imp el er) = children er" "index (posCell imp el er) = index er"
  "parent (posCell imp el er) = parent er" "elem_id (posCell imp el er) = elem_id er"
  "elem_class (posCell imp el er) = elem_class er" "opacity (posCell imp el er) = opacity er"
  "bounds (posCell imp el er) = bounds er" "selected (posCell imp el er) = selected er"
  by (simp_all add: posCell_def split: option.splits)

lemma boundsCell_keeps:
  "children (boundsCell imp el er) = children er" "index (boundsCell imp el er) = index er"
  "parent (boundsCell imp el er) = parent er" "elem_id (boundsCell imp el er) = elem_id er"
  "elem_class (boundsCell imp el er) = elem_class er" "opacity (boundsCell imp el er) = opacity er"
  "position (boundsCell imp el er) = position er" "selected (boundsCell imp el er) = selected er"
  by (simp_all add: boundsCell_def split: option.splits)

lemma selCell_keeps:
  "children (selCell el er) = children er" "index (selCell el er) = index er"
  "parent (selCell el er) = parent er" "elem_id (selCell el er) = elem_id er"
  "elem_class (selCell el er) = elem_class er" "opacity (selCell el er) = opacity er"
  "position (selCell el er) = position er" "bounds (selCell el er) = bounds er"
  by (simp_all add: selCell_def)

lemma cbCell_keeps:
  "children (cbCell el er) = children er" "index (cbCell el er) = index er"
  "parent (cbCell el er) = parent er" "elem_id (cbCell el er) = elem_id er"
  "elem_class (cbCell el er) = elem_class er" "opacity (cbCell el er) = opacity er"
  "position (cbCell el er) = position er" "bounds (cbCell el er) = bounds er"
  "selected (cbCell el er) = selected er"
  by (simp_all add: cbCell_def)

lemma vpCell_keeps:
  "children (vpCell el er) = children er" "index (vpCell el er) = index er"
  "parent (vpCell el er) = parent er" "elem_id (vpCell el er) = elem_id er"
  "elem_class (vpCell el er) = elem_class er" "opacity (vpCell el er) = opacity er"
  "position (vpCell el er) = position er" "bounds (vpCell el er) = bounds er"
  "selected (vpCell el er) = selected er" "canvasBounds (vpCell el er) = canvasBounds er"
  by (simp_all add: vpCell_def)

lemma stepCell_keeps:
  "children (stepCell imp el er) = children er" "index (stepCell imp el er) = index er"
  "parent (stepCell imp el er) = parent er" "elem_id (stepCell imp el er) = elem_id er"
  "elem_class (stepCell imp el er) = elem_class er" "opacity (stepCell imp el er) = opacity er"
  by (simp_all add: stepCell_def posCell_keeps boundsCell_keeps selCell_keeps cbCell_keeps vpCell_keeps)

lemma payload_stepCell:
  assumes "payload er = payload er'"
  shows "payload (stepCell imp el er) = payload (stepCell imp el er')"
proof -
  have "er' = er\<lparr>children := children er', index := index er'\<rparr>"
    using assms by (rule payload_eqD)
  then have "stepCell imp el er' = (stepCell imp el er)\<lparr>children := children er', index := index er'\<rparr>"
    using stepCell_structure[where er = er and c = "children er'" and i = "index er'" and imp = imp and el = el] by simp
  then show ?thesis
    by (simp add: payload_def)
qed

lemma set_rightsOf: "set (rightsOf ms) = {r. \<exists>m \<in> set ms. right m = Some r}"
  by (force simp: rightsOf_def List.map_filter_def image_iff)

lemma rightsOf_snoc:
  "rightsOf (ms @ [m]) = rightsOf ms @ (case right m of Some r \<Rightarrow> [r] | None \<Rightarrow> [])"
  by (simp add: rightsOf_def List.map_filter_def split: option.splits)

lemma duringCell_fresh:
  "r \<notin> set (rightsOf ms) \<Longrightarrow> duringCell imp st0 ms r = heap st0 r"
proof -
  assume "r \<notin> set (rightsOf ms)"
  then have "filter (\<lambda>m. right m = Some r) ms = []"
    by (auto simp: set_rightsOf filter_empty_conv)
  then show ?thesis by (simp add: duringCell_def)
qed

lemma duringCell_snoc_other:
  "right m \<noteq> Some r \<Longrightarrow> duringCell imp st0 (ms @ [m]) r = duringCell imp st0 ms r"
  by (simp add: duringCell_def)

lemma duringCell_snoc_new:
  assumes "r \<notin> set (rightsOf ms)" and "right m = Some r"
  shows "duringCell imp st0 (ms @ [m]) r =
           (case left m of
              Some l \<Rightarrow> stepCell imp (heap st0 l) (heap st0 r)
            | None \<Rightarrow> fadeStart (heap st0 r))"
proof -
  from assms(1) have "filter (\<lambda>m. right m = Some r) ms = []"
    by (auto simp: set_rightsOf filter_empty_conv)
  with assms(2) show ?thesis by (simp add: duringCell_def)
qed

lemma addedFadeable_snoc:
  "addedFadeable st0 (ms @ [m]) r
     \<longleftrightarrow> addedFadeable st0 ms r \<or> (left m = None \<and> right m = Some r \<and> isFadeable (heap st0 r))"
  by (auto simp: addedFadeable_def)

lemma posData_facts:
  "fades (posData imp el er r d) = fades d"
  "resizes (posData imp el er r d) = resizes d"
  "movesOf (posData imp el er r d) =
     movesOf d @ (if moved imp el er
                  then [\<lparr>move_element = r, move_elementId = elem_id er,
                         fromPosition = the (position el), toPosition = the (position er)\<rparr>]
                  else [])"
  by (auto simp: posData_def movesOf_def moved_def split: option.splits)

lemma boundsData_facts:
  "fades (boundsData imp el er r d) = fades d"
  "moves (boundsData imp el er r d) = moves d"
  "resizesOf (boundsData imp el er r d) =
     resizesOf d @ (if resized imp el er
                    then [\<lparr>resize_element = r,
                           fromDimension = \<lparr>dim_width = bounds_width (the (bounds el)),
                                            dim_height = bounds_height (the (bounds el))\<rparr>,
                           toDimension = \<lparr>dim_width = bounds_width (the (bounds er)),
                                          dim_height = bounds_height (the (bounds er))\<rparr>\<rparr>]
                    else [])"
  by (auto simp: boundsData_def resizesOf_def resized_def split: option.splits)

lemma stepData_facts:
  "fades (stepData imp el er r d) = fades d"
  "movesOf (stepData imp el er r d) =
     movesOf d @ (if moved imp el er
                  then [\<lparr>move_element = r, move_elementId = elem_id er,
                         fromPosition = the (position el), toPosition = the (position er)\<rparr>]
                  else [])"
  "resizesOf (stepData imp el er r d) =
     resizesOf d @ (if resized imp el er
                    then [\<lparr>resize_element = r,
                           fromDimension = \<lparr>dim_width = bounds_width (the (bounds el)),
                                            dim_height = bounds_height (the (bounds el))\<rparr>,
                           toDimension = \<lparr>dim_width = bounds_width (the (bounds er)),
                                          dim_height = bounds_height (the (bounds er))\<rparr>\<rparr>]
                    else [])"
proof -
  show "fades (stepData imp el er r d) = fades d"
    by (simp add: stepData_def boundsData_facts posData_facts)
  show "movesOf (stepData imp el er r d) =
     movesOf d @ (if moved imp el er
                  then [\<lparr>move_element = r, move_elementId = elem_id er,
                         fromPosition = the (position el), toPosition = the (position er)\<rparr>]
                  else [])"
    using posData_facts(3)[of imp el er r d]
    by (simp add: stepData_def movesOf_def boundsData_facts(2))
  have "resizesOf (posData imp el er r d) = resizesOf d"
    by (simp add: resizesOf_def posData_facts)
  moreover have "resized imp el (posCell imp el er) = resized imp el er"
    by (simp add: resized_def posCell_keeps)
  ultimately show "resizesOf (stepData imp el er r d) =
     resizesOf d @ (if resized imp el er
                    then [\<lparr>resize_element = r,
                           fromDimension = \<lparr>dim_width = bounds_width (the (bounds el)),
                                            dim_height = bounds_height (the (bounds el))\<rparr>,
                           toDimension = \<lparr>dim_width = bounds_width (the (bounds er)),
                                          dim_height = bounds_height (the (bounds er))\<rparr>\<rparr>]
                    else [])"
    by (simp add: stepData_def boundsData_facts(3) posCell_keeps)
qed

lemma stepCell_position:
  "position (stepCell imp el er) = (if moved imp el er then position el else position er)"
  by (simp add: stepCell_def vpCell_keeps cbCell_keeps selCell_keeps boundsCell_keeps
      posCell_def moved_def split: option.splits)

lemma stepCell_bounds_resized:
  "resized imp el er \<Longrightarrow> bounds (stepCell imp el er) = bounds er"
  by (simp add: stepCell_def vpCell_keeps cbCell_keeps selCell_keeps posCell_keeps
      boundsCell_def resized_def split: option.splits)

lemma pm_both:
  "left m = Some l \<Longrightarrow> right m = Some r
   \<Longrightarrow> processMatch imp ctx tr (d, st) m = updateElement imp l r (d, st)"
  by (simp add: processMatch_def)

lemma pm_added:
  "left m = None \<Longrightarrow> right m = Some r
   \<Longrightarrow> processMatch imp ctx tr (d, st) m =
        (if isFadeable (heap st r)
         then (d\<lparr>fades := fades d @ [\<lparr>fade_element = r, fade_type = FadeIn\<rparr>]\<rparr>,
               modify r (\<lambda>e. e\<lparr>opacity := Some 0\<rparr>) st)
         else (d, st))"
  by (simp add: processMatch_def)

lemma pm_removed_ghost:
  "left m = Some l \<Longrightarrow> right m = None \<Longrightarrow> ghostWanted tr st m l p
   \<Longrightarrow> processMatch imp ctx tr (d, st) m =
        (let (leftCopy, st1) = createElement (ctx_modelFactory ctx) (FromElement l) st
         in (d\<lparr>fades := fades d @ [\<lparr>fade_element = leftCopy, fade_type = FadeOut\<rparr>]\<rparr>,
             add tr p leftCopy st1))"
  by (simp add: processMatch_def ghostWanted_def)

lemma pm_removed_skip:
  "left m = Some l \<Longrightarrow> right m = None \<Longrightarrow> \<forall>p. \<not> ghostWanted tr st m l p
   \<Longrightarrow> processMatch imp ctx tr (d, st) m = (d, st)"
  by (auto simp: processMatch_def ghostWanted_def split: option.splits)

lemma pm_none:
  "left m = None \<Longrightarrow> right m = None \<Longrightarrow> processMatch imp ctx tr (d, st) m = (d, st)"
  by (simp add: processMatch_def)

lemma passInv_skip:
  assumes "right m = None" and "passInv imp T tr st0 ms dst"
  shows "passInv imp T tr st0 (ms @ [m]) dst"
proof -
  have d: "\<And>r. duringCell imp st0 (ms @ [m]) r = duringCell imp st0 ms r"
    using assms(1) by (simp add: duringCell_snoc_other)
  have a: "\<And>r. addedFadeable st0 (ms @ [m]) r = addedFadeable st0 ms r"
    using assms(1) by (simp add: addedFadeable_snoc)
  have r: "rightsOf (ms @ [m]) = rightsOf ms"
    using assms(1) by (simp add: rightsOf_snoc)
  show ?thesis
    using assms(2) by (simp add: passInv_def inv_payload_def inv_fadeIns_def inv_resizes_def d a r)
qed

lemma treesOkD:
  assumes "treesOk S T tr st0"
  shows "S \<inter> T = {}" "\<And>a. a \<in> S \<Longrightarrow> a < next st0" "\<And>a. a \<in> T \<Longrightarrow> a < next st0" "tr \<in> T"
    "\<And>i p. index (heap st0 tr) i = Some p \<Longrightarrow> p \<in> T"
    "\<And>a c. a \<in> T \<Longrightarrow> c \<in> set (children (heap st0 a)) \<Longrightarrow> c < next st0"
    "inj_on (\<lambda>a. elem_id (heap st0 a)) T"
    "\<And>a. a \<in> T \<Longrightarrow> set (children (heap st0 a)) \<subseteq> T"
  using assms unfolding treesOk_def by (blast | simp)+

lemma passInv_both:
  assumes ok: "treesOk S T tr st0"
    and inv: "passInv imp T tr st0 ms (d, st)"
    and l: "left m = Some l" "l \<in> S"
    and r: "right m = Some r" "r \<in> T" "r \<notin> set (rightsOf ms)"
  shows "passInv imp T tr st0 (ms @ [m]) (processMatch imp ctx tr (d, st) m)"
proof -
  from inv have fr: "inv_frame T st0 st" and pl: "inv_payload imp T tr st0 ms st"
    and gh: "ghostInv T tr st0 (fades d) st" and al: "inv_alloc T tr st0 (fades d) st"
    and fi: "inv_fadeIns st0 ms (fades d)" and mv: "inv_moves T st0 d st"
    and rs: "inv_resizes ms d st"
    by (simp_all add: passInv_def)
  have lr: "l \<noteq> r" and lT: "l \<notin> T" and l0: "l < next st0" and r0: "r < next st0"
    using treesOkD(1-3)[OF ok] l(2) r(2) by auto
  have hl: "heap st l = heap st0 l"
    using fr lT l0 by (simp add: inv_frame_def)
  have pr: "payload (heap st r) = payload (heap st0 r)"
    using pl r(2) duringCell_fresh[OF r(3)] by (simp add: inv_payload_def)
  define c' where "c' = stepCell imp (heap st0 l) (heap st r)"
  define st' where "st' = modify r (\<lambda>_. c') st"
  define d' where "d' = stepData imp (heap st0 l) (heap st r) r d"
  have pm: "processMatch imp ctx tr (d, st) m = (d', st')"
    using pm_both[OF l(1) r(1)] updateElement_cell[OF lr] hl
    by (simp add: c'_def st'_def d'_def)
  have hr: "heap st' r = c'" and ho: "\<And>a. a \<noteq> r \<Longrightarrow> heap st' a = heap st a"
    and nx: "next st' = next st"
    by (simp_all add: st'_def heap_modify_same heap_modify_other next_modify)
  have keep: "children (heap st' a) = children (heap st a)" "index (heap st' a) = index (heap st a)"
    "parent (heap st' a) = parent (heap st a)" "elem_id (heap st' a) = elem_id (heap st a)"
    "opacity (heap st' a) = opacity (heap st a)" for a
    by (cases "a = r"; simp add: hr ho c'_def stepCell_keeps)+
  have fd: "fades d' = fades d"
    by (simp add: d'_def stepData_facts)
  have 1: "inv_frame T st0 st'"
    unfolding inv_frame_def
  proof (intro conjI allI impI)
    show "next st0 \<le> next st'" using fr nx by (simp add: inv_frame_def)
    fix a assume a: "a < next st0 \<and> a \<notin> T"
    then have "a \<noteq> r" using r(2) by auto
    then show "heap st' a = heap st0 a"
      using ho fr a by (simp add: inv_frame_def)
  qed
  have 2: "inv_payload imp T tr st0 (ms @ [m]) st'"
    unfolding inv_payload_def
  proof (intro ballI conjI impI)
    fix a assume a: "a \<in> T"
    show "payload (heap st' a) = payload (duringCell imp st0 (ms @ [m]) a)"
    proof (cases "a = r")
      case True
      have "duringCell imp st0 (ms @ [m]) r = stepCell imp (heap st0 l) (heap st0 r)"
        using duringCell_snoc_new[OF r(3) r(1)] l(1) by simp
      then show ?thesis
        using True hr payload_stepCell[OF pr] by (simp add: c'_def)
    next
      case False
      then have "duringCell imp st0 (ms @ [m]) a = duringCell imp st0 ms a"
        using r(1) by (simp add: duringCell_snoc_other)
      then show ?thesis
        using False ho pl a by (simp add: inv_payload_def)
    qed
    show "index (heap st' a) = index (heap st0 a)" if "a \<noteq> tr"
      using that pl a keep(2) by (simp add: inv_payload_def)
  qed
  have 3: "ghostInv T tr st0 (fades d') st'"
    using gh by (simp add: ghostInv_def fd keep)
  have 4: "inv_alloc T tr st0 (fades d') st'"
    using al by (simp add: inv_alloc_def fd keep nx)
  have 5: "inv_fadeIns st0 (ms @ [m]) (fades d')"
    using fi l(1) by (simp add: inv_fadeIns_def fd addedFadeable_snoc)
  have m6a: "move_element j \<in> T
        \<and> position (heap st0 (move_element j)) = Some (toPosition j)
        \<and> move_elementId j = elem_id (heap st0 (move_element j))" if "j \<in> set (movesOf d')" for j
  proof -
    from that consider "j \<in> set (movesOf d)"
      | "moved imp (heap st0 l) (heap st r)"
        "j = \<lparr>move_element = r, move_elementId = elem_id (heap st r),
              fromPosition = the (position (heap st0 l)), toPosition = the (position (heap st r))\<rparr>"
      by (auto simp: d'_def stepData_facts split: if_splits)
    then show ?thesis
    proof cases
      case 1
      then show ?thesis using mv by (simp add: inv_moves_def)
    next
      case 2
      have "position (heap st r) \<noteq> None"
        using 2(1) by (auto simp: moved_def split: option.splits)
      then show ?thesis
        using 2(2) r(2) payload_fields(1,5)[OF pr] by auto
    qed
  qed
  have m6b: "a \<in> move_element ` set (movesOf d')"
    if a: "a \<in> T" and ne: "position (heap st' a) \<noteq> position (heap st0 a)" for a
  proof (cases "a = r")
    case True
    have "position c' = (if moved imp (heap st0 l) (heap st r) then position (heap st0 l)
                         else position (heap st r))"
      by (simp add: c'_def stepCell_position)
    with ne True hr payload_fields(1)[OF pr] have "moved imp (heap st0 l) (heap st r)"
      by (auto split: if_splits)
    then show ?thesis
      using True by (simp add: d'_def stepData_facts)
  next
    case False
    then have "position (heap st a) \<noteq> position (heap st0 a)"
      using ne ho by simp
    then have "a \<in> move_element ` set (movesOf d)"
      using mv a by (simp add: inv_moves_def)
    then show ?thesis
      by (auto simp: d'_def stepData_facts)
  qed
  have 6: "inv_moves T st0 d' st'"
    unfolding inv_moves_def using m6a m6b by blast
  have 7: "inv_resizes (ms @ [m]) d' st'"
    unfolding inv_resizes_def
  proof (intro ballI)
    fix j assume "j \<in> set (resizesOf d')"
    then consider "j \<in> set (resizesOf d)"
      | "resized imp (heap st0 l) (heap st r)"
        "resize_element j = r"
        "toDimension j = \<lparr>dim_width = bounds_width (the (bounds (heap st r))),
                          dim_height = bounds_height (the (bounds (heap st r)))\<rparr>"
      by (auto simp: d'_def stepData_facts split: if_splits)
    then show "resize_element j \<in> set (rightsOf (ms @ [m]))
        \<and> (\<exists>b. bounds (heap st' (resize_element j)) = Some b
              \<and> toDimension j = \<lparr>dim_width = bounds_width b, dim_height = bounds_height b\<rparr>)"
    proof cases
      case 1
      then have e: "resize_element j \<in> set (rightsOf ms)"
        and b: "\<exists>b. bounds (heap st (resize_element j)) = Some b
              \<and> toDimension j = \<lparr>dim_width = bounds_width b, dim_height = bounds_height b\<rparr>"
        using rs by (simp_all add: inv_resizes_def)
      from e r(3) have "resize_element j \<noteq> r" by auto
      then show ?thesis
        using e b ho by (simp add: rightsOf_snoc)
    next
      case 2
      have "bounds (heap st r) \<noteq> None"
        using 2(1) by (auto simp: resized_def split: option.splits)
      moreover have "bounds (heap st' r) = bounds (heap st r)"
        using hr stepCell_bounds_resized[OF 2(1)] by (simp add: c'_def)
      ultimately show ?thesis
        using 2(2,3) r(1) by (auto simp: rightsOf_snoc)
    qed
  qed
  show ?thesis
    using 1 2 3 4 5 6 7 by (simp add: pm passInv_def)
qed

lemma ghostsOf_snoc:
  "ghostsOf (fs @ [f]) = (if fade_type f = FadeOut then insert (fade_element f) (ghostsOf fs) else ghostsOf fs)"
  by (auto simp: ghostsOf_def)

lemma fadeInsOf_snoc:
  "fadeInsOf (fs @ [f]) = (if fade_type f = FadeIn then insert (fade_element f) (fadeInsOf fs) else fadeInsOf fs)"
  by (auto simp: fadeInsOf_def)

lemma payload_opacity:
  "payload e = payload e' \<Longrightarrow> payload (e\<lparr>opacity := x\<rparr>) = payload (e'\<lparr>opacity := x\<rparr>)"
  by (cases e; cases e') (simp add: payload_def)

lemma passInv_added:
  assumes ok: "treesOk S T tr st0"
    and inv: "passInv imp T tr st0 ms (d, st)"
    and l: "left m = None"
    and r: "right m = Some r" "r \<in> T" "r \<notin> set (rightsOf ms)"
  shows "passInv imp T tr st0 (ms @ [m]) (processMatch imp ctx tr (d, st) m)"
proof -
  from inv have fr: "inv_frame T st0 st" and pl: "inv_payload imp T tr st0 ms st"
    and gh: "ghostInv T tr st0 (fades d) st" and al: "inv_alloc T tr st0 (fades d) st"
    and fi: "inv_fadeIns st0 ms (fades d)" and mv: "inv_moves T st0 d st"
    and rs: "inv_resizes ms d st"
    by (simp_all add: passInv_def)
  have pr: "payload (heap st r) = payload (heap st0 r)"
    using pl r(2) duringCell_fresh[OF r(3)] by (simp add: inv_payload_def)
  have fe: "isFadeable (heap st r) = isFadeable (heap st0 r)"
    using payload_fields(4)[OF pr] by (simp add: isFadeable_def)
  have dc: "duringCell imp st0 (ms @ [m]) r = fadeStart (heap st0 r)"
    using duringCell_snoc_new[OF r(3) r(1)] l by simp
  have dco: "\<And>a. a \<noteq> r \<Longrightarrow> duringCell imp st0 (ms @ [m]) a = duringCell imp st0 ms a"
    using r(1) by (simp add: duringCell_snoc_other)
  have ro: "rightsOf (ms @ [m]) = rightsOf ms @ [r]"
    using r(1) by (simp add: rightsOf_snoc)
  show ?thesis
  proof (cases "isFadeable (heap st r)")
    case False
    have pm: "processMatch imp ctx tr (d, st) m = (d, st)"
      using pm_added[OF l r(1)] False by simp
    have "fadeStart (heap st0 r) = heap st0 r"
      using False fe by (simp add: fadeStart_def)
    then have 2: "inv_payload imp T tr st0 (ms @ [m]) st"
      using pl dc dco duringCell_fresh[OF r(3)] unfolding inv_payload_def by metis
    have 5: "inv_fadeIns st0 (ms @ [m]) (fades d)"
      using fi False fe l r(1) by (auto simp: inv_fadeIns_def addedFadeable_snoc)
    have 7: "inv_resizes (ms @ [m]) d st"
      using rs by (auto simp: inv_resizes_def ro)
    show ?thesis
      using fr 2 gh al 5 mv 7 by (simp add: pm passInv_def)
  next
    case True
    define st' where "st' = modify r (\<lambda>e. e\<lparr>opacity := Some 0\<rparr>) st"
    define d' where "d' = d\<lparr>fades := fades d @ [\<lparr>fade_element = r, fade_type = FadeIn\<rparr>]\<rparr>"
    have pm: "processMatch imp ctx tr (d, st) m = (d', st')"
      using pm_added[OF l r(1)] True by (simp add: st'_def d'_def)
    have hr: "heap st' r = (heap st r)\<lparr>opacity := Some 0\<rparr>"
      and ho: "\<And>a. a \<noteq> r \<Longrightarrow> heap st' a = heap st a"
      and nx: "next st' = next st"
      by (simp_all add: st'_def heap_modify_same heap_modify_other next_modify)
    have keep: "children (heap st' a) = children (heap st a)" "index (heap st' a) = index (heap st a)"
      "parent (heap st' a) = parent (heap st a)" "elem_id (heap st' a) = elem_id (heap st a)"
      "position (heap st' a) = position (heap st a)" "bounds (heap st' a) = bounds (heap st a)" for a
      by (cases "a = r"; simp add: hr ho)+
    have gd: "ghostsOf (fades d') = ghostsOf (fades d)"
      and fd: "fadeInsOf (fades d') = insert r (fadeInsOf (fades d))"
      and md: "movesOf d' = movesOf d" and rd: "resizesOf d' = resizesOf d"
      by (simp_all add: d'_def ghostsOf_snoc fadeInsOf_snoc movesOf_def resizesOf_def)
    have 1: "inv_frame T st0 st'"
      unfolding inv_frame_def
    proof (intro conjI allI impI)
      show "next st0 \<le> next st'" using fr nx by (simp add: inv_frame_def)
      fix a assume a: "a < next st0 \<and> a \<notin> T"
      then have "a \<noteq> r" using r(2) by auto
      then show "heap st' a = heap st0 a"
        using ho fr a by (simp add: inv_frame_def)
    qed
    have pnew: "payload (heap st' r) = payload (fadeStart (heap st0 r))"
      using True fe hr payload_opacity[OF pr] by (simp add: fadeStart_def)
    have 2: "inv_payload imp T tr st0 (ms @ [m]) st'"
      unfolding inv_payload_def
    proof (intro ballI conjI impI)
      fix a assume a: "a \<in> T"
      show "payload (heap st' a) = payload (duringCell imp st0 (ms @ [m]) a)"
        using a pl pnew dc dco ho by (cases "a = r") (simp_all add: inv_payload_def)
      show "index (heap st' a) = index (heap st0 a)" if "a \<noteq> tr"
        using that pl a keep(2) by (simp add: inv_payload_def)
    qed
    have 3: "ghostInv T tr st0 (fades d') st'"
      using gh r(2) by (simp add: ghostInv_def gd fd keep)
    have 4: "inv_alloc T tr st0 (fades d') st'"
      using al by (simp add: inv_alloc_def gd keep nx)
    have 5: "inv_fadeIns st0 (ms @ [m]) (fades d')"
      using fi True fe l r(1) by (auto simp: inv_fadeIns_def fd addedFadeable_snoc)
    have 6: "inv_moves T st0 d' st'"
      using mv by (simp add: inv_moves_def md keep)
    have 7: "inv_resizes (ms @ [m]) d' st'"
      using rs by (auto simp: inv_resizes_def ro rd keep)
    show ?thesis
      using 1 2 3 4 5 6 7 by (simp add: pm passInv_def)
  qed
qed

lemma add_fields:
  "next (add tr p g st) = next st"
  "elem_id (heap (add tr p g st) a) = elem_id (heap st a)"
  "position (heap (add tr p g st) a) = position (heap st a)"
  "bounds (heap (add tr p g st) a) = bounds (heap st a)"
  "opacity (heap (add tr p g st) a) = opacity (heap st a)"
  "children (heap (add tr p g st) a) = (if a = p then children (heap st a) @ [g] else children (heap st a))"
  "parent (heap (add tr p g st) a) = (if a = g then Some p else parent (heap st a))"
  "index (heap (add tr p g st) a) =
     (if a = tr then (index (heap st a))(elem_id (heap st g) \<mapsto> g) else index (heap st a))"
  by (simp_all add: add_def Let_def heap_modify next_modify)

lemma add_other:
  "a \<noteq> tr \<Longrightarrow> a \<noteq> p \<Longrightarrow> a \<noteq> g \<Longrightarrow> heap (add tr p g st) a = heap st a"
  by (simp add: add_def Let_def heap_modify)

lemma add_payload:
  "a \<noteq> g \<Longrightarrow> payload (heap (add tr p g st) a) = payload (heap st a)"
  by (simp add: add_def Let_def heap_modify payload_def)

lemma factoryCopiesD:
  assumes "factoryCopies f"
  shows "fst (createElement f src st) < next (snd (createElement f src st))"
    and "elem_id (heap (snd (createElement f (FromElement l) st)) (fst (createElement f (FromElement l) st)))
           = elem_id (heap st l)"
proof -
  have a: "case createElement f src st of
          (a, st') \<Rightarrow> a < next st'
                     \<and> (\<forall>l. src = FromElement l \<longrightarrow> elem_id (heap st' a) = elem_id (heap st l))" for src
    using assms[unfolded factoryCopies_def, rule_format] .
  show "fst (createElement f src st) < next (snd (createElement f src st))"
    using a[of src] by (simp add: case_prod_unfold)
  show "elem_id (heap (snd (createElement f (FromElement l) st)) (fst (createElement f (FromElement l) st)))
           = elem_id (heap st l)"
    using a[of "FromElement l"] by (simp add: case_prod_unfold)
qed

lemma ghostInvD:
  assumes "ghostInv T tr st0 fs st"
  shows "\<And>g. g \<in> ghostsOf fs \<Longrightarrow> next st0 \<le> g"
    and "\<And>g. g \<in> ghostsOf fs \<Longrightarrow> index (heap st0 tr) (elem_id (heap st g)) = None"
    and "\<And>g p. g \<in> ghostsOf fs \<Longrightarrow> parent (heap st g) = Some p \<Longrightarrow> p \<in> T \<or> next st0 \<le> p"
    and "\<And>a. a \<in> T \<Longrightarrow> filter (\<lambda>c. c < next st0) (children (heap st a)) = children (heap st0 a)"
    and "\<And>a c. a \<in> T \<Longrightarrow> c \<in> set (children (heap st a))
           \<Longrightarrow> c < next st0 \<or> (c \<in> ghostsOf fs \<and> parent (heap st c) = Some a)"
    and "\<And>i. index (heap st tr) i = index (heap st0 tr) i
              \<or> (index (heap st0 tr) i = None
                  \<and> (\<exists>g \<in> ghostsOf fs. elem_id (heap st g) = i \<and> parent (heap st g) \<noteq> None))"
    and "fadeInsOf fs \<subseteq> T"
  using assms unfolding ghostInv_def by blast+

lemma passInv_ghost:
  assumes ok: "treesOk S T tr st0"
    and inv: "passInv imp T tr st0 ms (d, st)"
    and fac: "factoryAllocatesOnly (ctx_modelFactory ctx)" "factoryCopies (ctx_modelFactory ctx)"
    and l: "left m = Some l"
    and r: "right m = None"
    and rT: "set (rightsOf ms) \<subseteq> T"
    and w: "ghostWanted tr st m l p"
  shows "passInv imp T tr st0 (ms @ [m]) (processMatch imp ctx tr (d, st) m)"
proof -
  from inv have fr: "inv_frame T st0 st" and pl: "inv_payload imp T tr st0 ms st"
    and gh: "ghostInv T tr st0 (fades d) st" and al: "inv_alloc T tr st0 (fades d) st"
    and fi: "inv_fadeIns st0 ms (fades d)" and mv: "inv_moves T st0 d st"
    and rs: "inv_resizes ms d st"
    by (simp_all add: passInv_def)
  define g where "g = fst (createElement (ctx_modelFactory ctx) (FromElement l) st)"
  define st1 where "st1 = snd (createElement (ctx_modelFactory ctx) (FromElement l) st)"
  define st' where "st' = add tr p g st1"
  define d' where "d' = d\<lparr>fades := fades d @ [\<lparr>fade_element = g, fade_type = FadeOut\<rparr>]\<rparr>"
  define X where "X = elem_id (heap st l)"
  have pm: "processMatch imp ctx tr (d, st) m = (d', st')"
    using pm_removed_ghost[OF l r w] by (simp add: case_prod_unfold Let_def g_def st1_def st'_def d'_def)
  have g1: "next st \<le> g" and n1: "next st \<le> next st1"
    and h1: "\<And>b. b < next st \<Longrightarrow> heap st1 b = heap st b"
    using factoryAllocatesOnlyD[OF fac(1)] by (simp_all add: g_def st1_def)
  have g2: "g < next st1" and gid: "elem_id (heap st1 g) = X"
    using factoryCopiesD[OF fac(2)] by (simp_all add: g_def st1_def X_def)
  have n0: "next st0 \<le> next st"
    using fr by (simp add: inv_frame_def)
  have T0: "\<And>a. a \<in> T \<Longrightarrow> a < next st0" and trT: "tr \<in> T"
    using treesOkD[OF ok] by auto
  have Tg: "\<And>a. a \<in> T \<Longrightarrow> a \<noteq> g" and Tst: "\<And>a. a \<in> T \<Longrightarrow> a < next st"
    using T0 n0 g1 by fastforce+
  have iX: "index (heap st tr) X = None" and ip: "index (heap st tr) (the (leftParentId m)) = Some p"
    using w by (simp_all add: ghostWanted_def getById_def X_def)
  have p1: "p < next st" and p2: "p \<in> T \<or> next st0 \<le> p"
    using al ip by (auto simp: inv_alloc_def)
  have pg: "p \<noteq> g" using p1 g1 by simp
  have i0X: "index (heap st0 tr) X = None"
    using gh iX unfolding ghostInv_def by metis
  have nx: "next st' = next st1"
    by (simp add: st'_def add_fields)
  have old: "elem_id (heap st' a) = elem_id (heap st a)" "position (heap st' a) = position (heap st a)"
    "bounds (heap st' a) = bounds (heap st a)" "parent (heap st' a) = parent (heap st a)"
    "children (heap st' a) = (if a = p then children (heap st a) @ [g] else children (heap st a))"
    "index (heap st' a) = (if a = tr then (index (heap st a))(X \<mapsto> g) else index (heap st a))"
    "payload (heap st' a) = payload (heap st a)"
    if "a < next st" for a
  proof -
    have ag: "a \<noteq> g" using that g1 by simp
    show "elem_id (heap st' a) = elem_id (heap st a)" "position (heap st' a) = position (heap st a)"
      "bounds (heap st' a) = bounds (heap st a)" "parent (heap st' a) = parent (heap st a)"
      "children (heap st' a) = (if a = p then children (heap st a) @ [g] else children (heap st a))"
      "index (heap st' a) = (if a = tr then (index (heap st a))(X \<mapsto> g) else index (heap st a))"
      "payload (heap st' a) = payload (heap st a)"
      using ag h1[OF that] gid by (auto simp: st'_def add_fields add_payload)
  qed
  have new: "elem_id (heap st' g) = X" "parent (heap st' g) = Some p"
    using gid by (simp_all add: st'_def add_fields)
  have gd: "ghostsOf (fades d') = insert g (ghostsOf (fades d))"
    and fd: "fadeInsOf (fades d') = fadeInsOf (fades d)"
    and md: "movesOf d' = movesOf d" and rd: "resizesOf d' = resizesOf d"
    by (simp_all add: d'_def ghostsOf_snoc fadeInsOf_snoc movesOf_def resizesOf_def)
  have gst: "\<And>c. c \<in> ghostsOf (fades d) \<Longrightarrow> c < next st"
    using al by (simp add: inv_alloc_def)
  have dc: "\<And>a. duringCell imp st0 (ms @ [m]) a = duringCell imp st0 ms a"
    using r by (simp add: duringCell_snoc_other)
  have ro: "rightsOf (ms @ [m]) = rightsOf ms"
    using r by (simp add: rightsOf_snoc)
  have 1: "inv_frame T st0 st'"
    unfolding inv_frame_def
  proof (intro conjI allI impI)
    show "next st0 \<le> next st'" using n0 n1 nx by simp
    fix a assume a: "a < next st0 \<and> a \<notin> T"
    then have "a \<noteq> tr" "a \<noteq> p" "a \<noteq> g" "a < next st"
      using trT p2 g1 n0 by auto
    then have "heap st' a = heap st a"
      using h1 by (simp add: st'_def add_other)
    then show "heap st' a = heap st0 a"
      using fr a by (simp add: inv_frame_def)
  qed
  have 2: "inv_payload imp T tr st0 (ms @ [m]) st'"
    using pl Tst by (simp add: inv_payload_def dc old)
  have k1: "next st0 \<le> c \<and> index (heap st0 tr) (elem_id (heap st' c)) = None
        \<and> (\<forall>q. parent (heap st' c) = Some q \<longrightarrow> q \<in> T \<or> next st0 \<le> q)"
    if "c \<in> ghostsOf (fades d')" for c
  proof (cases "c = g")
    case True
    then show ?thesis using g1 n0 new i0X p2 by simp
  next
    case False
    then have c: "c \<in> ghostsOf (fades d)" using that gd by simp
    then show ?thesis
      using ghostInvD(1,2)[OF gh c] ghostInvD(3)[OF gh c] old(1,4)[OF gst[OF c]] by simp
  qed
  have k2a: "filter (\<lambda>c. c < next st0) (children (heap st' a)) = children (heap st0 a)"
    if "a \<in> T" for a
  proof -
    have "\<not> g < next st0" using g1 n0 by simp
    then show ?thesis
      using ghostInvD(4)[OF gh that] old(5)[OF Tst[OF that]] by (cases "a = p") simp_all
  qed
  have k2b: "c < next st0 \<or> (c \<in> ghostsOf (fades d') \<and> parent (heap st' c) = Some a)"
    if a: "a \<in> T" and c: "c \<in> set (children (heap st' a))" for a c
  proof (cases "c = g")
    case True
    then have "a = p"
    proof -
      have "g \<notin> set (children (heap st a))"
      proof
        assume "g \<in> set (children (heap st a))"
        then have "g < next st0 \<or> g \<in> ghostsOf (fades d)"
          using gh a unfolding ghostInv_def by blast
        then show False using g1 n0 gst by fastforce
      qed
      then show ?thesis
        using c True old(5)[OF Tst[OF a]] by (auto split: if_splits)
    qed
    then show ?thesis using True gd new by simp
  next
    case False
    then have "c \<in> set (children (heap st a))"
      using c old(5)[OF Tst[OF a]] by (auto split: if_splits)
    then have "c < next st0 \<or> (c \<in> ghostsOf (fades d) \<and> parent (heap st c) = Some a)"
      using gh a unfolding ghostInv_def by blast
    then show ?thesis
      using gd gst old(4) by auto
  qed
  have k3: "index (heap st' tr) i = index (heap st0 tr) i
        \<or> (index (heap st0 tr) i = None
            \<and> (\<exists>c \<in> ghostsOf (fades d'). elem_id (heap st' c) = i \<and> parent (heap st' c) \<noteq> None))" for i
  proof (cases "i = X")
    case True
    then show ?thesis using i0X gd new by auto
  next
    case False
    have "index (heap st tr) i = index (heap st0 tr) i
        \<or> (index (heap st0 tr) i = None
            \<and> (\<exists>c \<in> ghostsOf (fades d). elem_id (heap st c) = i \<and> parent (heap st c) \<noteq> None))"
      using gh unfolding ghostInv_def by blast
    moreover have "index (heap st' tr) i = index (heap st tr) i"
      using False old(6)[OF Tst[OF trT]] by simp
    ultimately show ?thesis
      using gd gst old(1,4) by auto
  qed
  have k4: "fadeInsOf (fades d') \<subseteq> T"
    using gh by (simp add: ghostInv_def fd)
  have 3: "ghostInv T tr st0 (fades d') st'"
    unfolding ghostInv_def using k1 k2a k2b k3 k4 by blast
  have 4: "inv_alloc T tr st0 (fades d') st'"
    unfolding inv_alloc_def
  proof (intro conjI ballI allI impI)
    fix c assume "c \<in> ghostsOf (fades d')"
    then show "c < next st'"
      using gd gst g2 n1 nx by fastforce
  next
    fix i q assume q: "index (heap st' tr) i = Some q"
    have "q = g \<or> index (heap st tr) i = Some q"
      using q old(6)[OF Tst[OF trT]] by (auto split: if_splits)
    then have "q = g \<or> (q < next st \<and> (q \<in> T \<or> next st0 \<le> q))"
      using al by (auto simp: inv_alloc_def)
    then show "q < next st'" "q \<in> T \<or> next st0 \<le> q"
      using g1 g2 n0 n1 nx by auto
  qed
  have 5: "inv_fadeIns st0 (ms @ [m]) (fades d')"
    using fi r by (simp add: inv_fadeIns_def fd addedFadeable_snoc)
  have 6: "inv_moves T st0 d' st'"
    using mv Tst by (simp add: inv_moves_def md old)
  have 7: "inv_resizes (ms @ [m]) d' st'"
    unfolding inv_resizes_def
  proof (intro ballI)
    fix j assume "j \<in> set (resizesOf d')"
    then have j: "resize_element j \<in> set (rightsOf ms)"
      "\<exists>b. bounds (heap st (resize_element j)) = Some b
            \<and> toDimension j = \<lparr>dim_width = bounds_width b, dim_height = bounds_height b\<rparr>"
      using rs by (simp_all add: inv_resizes_def rd)
    then have "resize_element j < next st" using rT Tst by auto
    then show "resize_element j \<in> set (rightsOf (ms @ [m]))
        \<and> (\<exists>b. bounds (heap st' (resize_element j)) = Some b
              \<and> toDimension j = \<lparr>dim_width = bounds_width b, dim_height = bounds_height b\<rparr>)"
      using j by (simp add: ro old)
  qed
  show ?thesis
    using 1 2 3 4 5 6 7 by (simp add: pm passInv_def)
qed

lemma matchesOk_snoc:
  assumes "matchesOk S T (ms @ [m])"
  shows "matchesOk S T ms"
    and "\<And>l. left m = Some l \<Longrightarrow> l \<in> S"
    and "\<And>r. right m = Some r \<Longrightarrow> r \<in> T \<and> r \<notin> set (rightsOf ms)"
    and "set (rightsOf ms) \<subseteq> T"
  using assms by (auto simp: matchesOk_def rightsOf_snoc set_rightsOf split: option.splits)

lemma passInv_step:
  assumes ok: "treesOk S T tr st0"
    and fac: "factoryAllocatesOnly (ctx_modelFactory ctx)" "factoryCopies (ctx_modelFactory ctx)"
    and inv: "passInv imp T tr st0 ms (d, st)"
    and mok: "matchesOk S T (ms @ [m])"
  shows "passInv imp T tr st0 (ms @ [m]) (processMatch imp ctx tr (d, st) m)"
proof (cases "right m")
  case (Some r)
  have r: "r \<in> T" "r \<notin> set (rightsOf ms)"
    using matchesOk_snoc(3)[OF mok Some] by simp_all
  show ?thesis
  proof (cases "left m")
    case None
    show ?thesis by (rule passInv_added[OF ok inv None Some r])
  next
    case (Some l)
    have "l \<in> S" using matchesOk_snoc(2)[OF mok Some] .
    then show ?thesis
      using passInv_both[OF ok inv Some _ \<open>right m = Some r\<close> r] by simp
  qed
next
  case None
  show ?thesis
  proof (cases "left m")
    case lN: None
    show ?thesis
      using passInv_skip[OF None inv] by (simp add: pm_none[OF lN None])
  next
    case (Some l)
    show ?thesis
    proof (cases "\<exists>p. ghostWanted tr st m l p")
      case True
      then obtain p where "ghostWanted tr st m l p" ..
      then show ?thesis
        using passInv_ghost[OF ok inv fac Some None matchesOk_snoc(4)[OF mok]] by simp
    next
      case False
      then have "processMatch imp ctx tr (d, st) m = (d, st)"
        using pm_removed_skip[OF Some None] by simp
      then show ?thesis
        using passInv_skip[OF None inv] by simp
    qed
  qed
qed

lemma passInv_init:
  assumes ok: "treesOk S T tr st0"
  shows "passInv imp T tr st0 [] (\<lparr>fades = [], moves = None, resizes = None\<rparr>, st0)"
proof -
  have 1: "inv_frame T st0 st0" by (simp add: inv_frame_def)
  have 2: "inv_payload imp T tr st0 [] st0" by (simp add: inv_payload_def duringCell_def)
  have "filter (\<lambda>c. c < next st0) (children (heap st0 a)) = children (heap st0 a)" if "a \<in> T" for a
    using treesOkD(6)[OF ok that] by (simp add: filter_id_conv)
  moreover have "c < next st0" if "a \<in> T" "c \<in> set (children (heap st0 a))" for a c
    using treesOkD(6)[OF ok that] .
  ultimately have 3: "ghostInv T tr st0 [] st0"
    by (simp add: ghostInv_def ghostsOf_def fadeInsOf_def)
  have 4: "inv_alloc T tr st0 [] st0"
    using treesOkD(3,5)[OF ok] by (auto simp: inv_alloc_def ghostsOf_def)
  have 5: "inv_fadeIns st0 [] []" by (simp add: inv_fadeIns_def fadeInsOf_def addedFadeable_def)
  have 6: "inv_moves T st0 \<lparr>fades = [], moves = None, resizes = None\<rparr> st0"
    by (simp add: inv_moves_def movesOf_def)
  have 7: "inv_resizes [] \<lparr>fades = [], moves = None, resizes = None\<rparr> st0"
    by (simp add: inv_resizes_def resizesOf_def)
  show ?thesis using 1 2 3 4 5 6 7 by (simp add: passInv_def)
qed

lemma passInv_fold:
  assumes ok: "treesOk S T tr st0"
    and fac: "factoryAllocatesOnly (ctx_modelFactory ctx)" "factoryCopies (ctx_modelFactory ctx)"
  shows "matchesOk S T ms
    \<Longrightarrow> passInv imp T tr st0 ms
          (foldl (processMatch imp ctx tr) (\<lparr>fades = [], moves = None, resizes = None\<rparr>, st0) ms)"
proof (induction ms rule: rev_induct)
  case Nil
  show ?case using passInv_init[OF ok] by simp
next
  case (snoc m ms)
  have "passInv imp T tr st0 ms
          (foldl (processMatch imp ctx tr) (\<lparr>fades = [], moves = None, resizes = None\<rparr>, st0) ms)"
    using snoc.IH matchesOk_snoc(1)[OF snoc.prems] by simp
  then show ?case
    using passInv_step[OF ok fac _ snoc.prems, where imp = imp
        and d = "fst (foldl (processMatch imp ctx tr) (\<lparr>fades = [], moves = None, resizes = None\<rparr>, st0) ms)"
        and st = "snd (foldl (processMatch imp ctx tr) (\<lparr>fades = [], moves = None, resizes = None\<rparr>, st0) ms)"]
    by simp
qed

lemma lookup_foldl:
  assumes "distinct (map fst mr)"
  shows "set xs \<subseteq> set mr
    \<Longrightarrow> foldl (\<lambda>acc i. case map_of mr i of Some m \<Rightarrow> f acc m | None \<Rightarrow> acc) a (map fst xs)
        = foldl f a (map snd xs)"
proof (induction xs arbitrary: a)
  case Nil
  show ?case by simp
next
  case (Cons x xs)
  have "map_of mr (fst x) = Some (snd x)"
    using assms Cons.prems by (cases x) simp
  then show ?case
    using Cons by simp
qed

lemma collect_foldl:
  "distinct (map fst mr)
   \<Longrightarrow> collectAnimationData imp ctx tr mr st
       = foldl (processMatch imp ctx tr) (\<lparr>fades = [], moves = None, resizes = None\<rparr>, st) (map snd mr)"
  unfolding collectAnimationData_def by (rule lookup_foldl) simp_all

lemma passInv_collect:
  assumes ok: "treesOk S T tr st0"
    and fac: "factoryAllocatesOnly (ctx_modelFactory ctx)" "factoryCopies (ctx_modelFactory ctx)"
    and pm: "properMatch S T mr"
  shows "passInv imp T tr st0 (map snd mr) (collectAnimationData imp ctx tr mr st0)"
  using passInv_fold[OF ok fac, of "map snd mr" imp] pm
  by (simp add: properMatch_def collect_foldl)

subsection \<open>The end of the animation\<close>

lemma remove_fields:
  "next (remove tr p g st) = next st"
  "elem_id (heap (remove tr p g st) a) = elem_id (heap st a)"
  "opacity (heap (remove tr p g st) a) = opacity (heap st a)"
  "children (heap (remove tr p g st) a) = (if a = p then removeAll g (children (heap st a)) else children (heap st a))"
  "parent (heap (remove tr p g st) a) = (if a = g then None else parent (heap st a))"
  "index (heap (remove tr p g st) a) =
     (if a = tr then (index (heap st a))(elem_id (heap st g) := None) else index (heap st a))"
  by (simp_all add: remove_def Let_def heap_modify next_modify)

lemma remove_other:
  "a \<noteq> tr \<Longrightarrow> a \<noteq> p \<Longrightarrow> a \<noteq> g \<Longrightarrow> heap (remove tr p g st) a = heap st a"
  by (simp add: remove_def Let_def heap_modify)

lemma remove_core:
  "a \<noteq> g \<Longrightarrow> core (heap (remove tr p g st) a) = core (heap st a)"
  by (simp add: remove_def Let_def heap_modify core_def)

lemma filter_removeAll_out:
  "\<not> P x \<Longrightarrow> filter P (removeAll x xs) = filter P xs"
  by (induction xs) auto

lemma ghostsOf_Cons:
  "ghostsOf (f # fs) = (if fade_type f = FadeOut then insert (fade_element f) (ghostsOf fs) else ghostsOf fs)"
  by (auto simp: ghostsOf_def)

lemma fadeInsOf_Cons:
  "fadeInsOf (f # fs) = (if fade_type f = FadeIn then insert (fade_element f) (fadeInsOf fs) else fadeInsOf fs)"
  by (auto simp: fadeInsOf_def)

lemma finishFade_in:
  assumes T0: "\<And>a. a \<in> T \<Longrightarrow> a < next st0" and trT: "tr \<in> T"
    and K: "ghostInv T tr st0 (f # fs) st"
    and f: "fade_type f = FadeIn"
  shows "ghostInv T tr st0 fs (finishFade tr True st f)"
    and "fadesDone T tr st0 [f] st (finishFade tr True st f)"
proof -
  define r where "r = fade_element f"
  define st1 where "st1 = finishFade tr True st f"
  have s1: "st1 = modify r (\<lambda>e. e\<lparr>opacity := Some 1\<rparr>) st"
    using f by (simp add: st1_def finishFade_def r_def)
  have rT: "r \<in> T"
    using ghostInvD(7)[OF K] f by (simp add: fadeInsOf_Cons r_def)
  have keep: "children (heap st1 a) = children (heap st a)" "index (heap st1 a) = index (heap st a)"
    "parent (heap st1 a) = parent (heap st a)" "elem_id (heap st1 a) = elem_id (heap st a)"
    "core (heap st1 a) = core (heap st a)"
    "opacity (heap st1 a) = (if a = r then Some 1 else opacity (heap st a))" for a
    by (simp_all add: s1 heap_modify core_def)
  have gc: "ghostsOf (f # fs) = ghostsOf fs" and fc: "fadeInsOf (f # fs) = insert r (fadeInsOf fs)"
    using f by (simp_all add: ghostsOf_Cons fadeInsOf_Cons r_def)
  show "ghostInv T tr st0 fs (finishFade tr True st f)"
    using K unfolding st1_def[symmetric] by (simp add: ghostInv_def gc fc keep)
  have "heap st1 a = heap st a" if "a \<notin> T" for a
    using that rT by (auto simp: s1 heap_modify)
  moreover have "next st1 = next st" by (simp add: s1 next_modify)
  moreover have "fadeInsOf [f] = {r}"
    using f by (auto simp: fadeInsOf_def r_def)
  ultimately show "fadesDone T tr st0 [f] st (finishFade tr True st f)"
    unfolding st1_def[symmetric] by (simp add: fadesDone_def keep)
qed

lemma finishFade_out:
  assumes T0: "\<And>a. a \<in> T \<Longrightarrow> a < next st0" and trT: "tr \<in> T"
    and K: "ghostInv T tr st0 (f # fs) st"
    and f: "fade_type f = FadeOut"
  shows "ghostInv T tr st0 fs (finishFade tr True st f)"
    and "fadesDone T tr st0 [f] st (finishFade tr True st f)"
proof -
  define g where "g = fade_element f"
  define sta where "sta = modify g (\<lambda>e. e\<lparr>opacity := Some 0\<rparr>) st"
  define st1 where "st1 = finishFade tr True st f"
  define X where "X = elem_id (heap st g)"
  have gc: "ghostsOf (f # fs) = insert g (ghostsOf fs)" and fc: "fadeInsOf (f # fs) = fadeInsOf fs"
    using f by (simp_all add: ghostsOf_Cons fadeInsOf_Cons g_def)
  have gG: "g \<in> ghostsOf (f # fs)" by (simp add: gc)
  have g0: "next st0 \<le> g" and gX: "index (heap st0 tr) X = None"
    using ghostInvD(1,2)[OF K gG] by (simp_all add: X_def)
  have Tg: "\<And>a. a \<in> T \<Longrightarrow> a \<noteq> g"
    using T0 g0 by fastforce
  have sub: "ghostsOf fs \<subseteq> ghostsOf (f # fs)" by (auto simp: gc)
  have a_keep: "children (heap sta a) = children (heap st a)" "index (heap sta a) = index (heap st a)"
    "parent (heap sta a) = parent (heap st a)" "elem_id (heap sta a) = elem_id (heap st a)" for a
    by (simp_all add: sta_def heap_modify)
  have a_T: "heap sta a = heap st a" if "a \<noteq> g" for a
    using that by (simp add: sta_def heap_modify)
  have a_next: "next sta = next st" by (simp add: sta_def next_modify)
  have fe: "fadeInsOf [f] = {}"
    using f by (auto simp: fadeInsOf_def)
  show "ghostInv T tr st0 fs (finishFade tr True st f)"
    and "fadesDone T tr st0 [f] st (finishFade tr True st f)"
  proof (atomize (full), cases "parent (heap st g)")
    case None
    have s1: "st1 = sta"
      using f None by (simp add: st1_def finishFade_def Let_def a_keep g_def[symmetric] sta_def[symmetric])
    have k3: "index (heap sta tr) i = index (heap st0 tr) i
        \<or> (index (heap st0 tr) i = None
            \<and> (\<exists>c \<in> ghostsOf fs. elem_id (heap sta c) = i \<and> parent (heap sta c) \<noteq> None))" for i
      using ghostInvD(6)[OF K, of i] None by (auto simp: gc a_keep)
    have "ghostInv T tr st0 fs sta"
      unfolding ghostInv_def
    proof (intro conjI ballI allI impI)
      fix c assume c: "c \<in> ghostsOf fs"
      then have c': "c \<in> ghostsOf (f # fs)" using sub by auto
      show "next st0 \<le> c" using ghostInvD(1)[OF K c'] .
      show "index (heap st0 tr) (elem_id (heap sta c)) = None"
        using ghostInvD(2)[OF K c'] by (simp add: a_keep)
      show "p \<in> T \<or> next st0 \<le> p" if "parent (heap sta c) = Some p" for p
        using ghostInvD(3)[OF K c'] that by (simp add: a_keep)
    next
      fix a assume a: "a \<in> T"
      show "filter (\<lambda>c. c < next st0) (children (heap sta a)) = children (heap st0 a)"
        using ghostInvD(4)[OF K a] by (simp add: a_keep)
      show "c < next st0 \<or> (c \<in> ghostsOf fs \<and> parent (heap sta c) = Some a)"
        if "c \<in> set (children (heap sta a))" for c
        using ghostInvD(5)[OF K a, of c] that None by (auto simp: a_keep gc)
    next
      show "index (heap sta tr) i = index (heap st0 tr) i
        \<or> (index (heap st0 tr) i = None
            \<and> (\<exists>c \<in> ghostsOf fs. elem_id (heap sta c) = i \<and> parent (heap sta c) \<noteq> None))" for i
        using k3 .
      show "fadeInsOf fs \<subseteq> T" using ghostInvD(7)[OF K] by (simp add: fc)
    qed
    moreover have "fadesDone T tr st0 [f] st sta"
      using Tg a_T a_next g0
      by (auto simp: fadesDone_def fe)
    ultimately show "ghostInv T tr st0 fs (finishFade tr True st f)
        \<and> fadesDone T tr st0 [f] st (finishFade tr True st f)"
      unfolding st1_def[symmetric] s1 by simp
  next
    case (Some p)
    have s1: "st1 = remove tr p g sta"
      using f Some by (simp add: st1_def finishFade_def Let_def a_keep g_def[symmetric] sta_def[symmetric])
    have pp: "p \<in> T \<or> next st0 \<le> p"
      using ghostInvD(3)[OF K gG Some] .
    have r_keep: "elem_id (heap st1 a) = elem_id (heap st a)"
      "children (heap st1 a) = (if a = p then removeAll g (children (heap st a)) else children (heap st a))"
      "parent (heap st1 a) = (if a = g then None else parent (heap st a))"
      "index (heap st1 a) = (if a = tr then (index (heap st a))(X := None) else index (heap st a))" for a
      by (simp_all add: s1 remove_fields a_keep X_def)
    have r_core: "core (heap st1 a) = core (heap st a)" "opacity (heap st1 a) = opacity (heap st a)"
      if "a \<noteq> g" for a
      using that by (simp_all add: s1 remove_core remove_fields a_T)
    have r_next: "next st1 = next st" by (simp add: s1 remove_fields a_next)
    have r_other: "heap st1 a = heap st a" if "a < next st0" "a \<notin> T" for a
    proof -
      have "a \<noteq> tr" "a \<noteq> p" "a \<noteq> g" using that trT pp g0 by auto
      then show ?thesis by (simp add: s1 remove_other a_T)
    qed
    have "ghostInv T tr st0 fs st1"
      unfolding ghostInv_def
    proof (intro conjI ballI allI impI)
      fix c assume c: "c \<in> ghostsOf fs"
      then have c': "c \<in> ghostsOf (f # fs)" using sub by auto
      show "next st0 \<le> c" using ghostInvD(1)[OF K c'] .
      show "index (heap st0 tr) (elem_id (heap st1 c)) = None"
        using ghostInvD(2)[OF K c'] by (simp add: r_keep)
      show "q \<in> T \<or> next st0 \<le> q" if "parent (heap st1 c) = Some q" for q
        using ghostInvD(3)[OF K c', of q] that by (auto simp: r_keep split: if_splits)
    next
      fix a assume a: "a \<in> T"
      have ng: "\<not> g < next st0" using g0 by simp
      show "filter (\<lambda>c. c < next st0) (children (heap st1 a)) = children (heap st0 a)"
        using ghostInvD(4)[OF K a] filter_removeAll_out[of "\<lambda>c. c < next st0" g, OF ng]
        by (cases "a = p") (simp_all add: r_keep)
      show "c < next st0 \<or> (c \<in> ghostsOf fs \<and> parent (heap st1 c) = Some a)"
        if c: "c \<in> set (children (heap st1 a))" for c
      proof -
        have c2: "c \<in> set (children (heap st a))"
          using c by (auto simp: r_keep split: if_splits)
        have "c \<noteq> g"
        proof
          assume e: "c = g"
          with ghostInvD(5)[OF K a c2] ng have "parent (heap st g) = Some a" by auto
          then have "a = p" using Some by simp
          then show False using c e by (simp add: r_keep)
        qed
        then show ?thesis
          using ghostInvD(5)[OF K a c2] by (auto simp: r_keep gc)
      qed
    next
      show "index (heap st1 tr) i = index (heap st0 tr) i
        \<or> (index (heap st0 tr) i = None
            \<and> (\<exists>c \<in> ghostsOf fs. elem_id (heap st1 c) = i \<and> parent (heap st1 c) \<noteq> None))" for i
      proof (cases "i = X")
        case True
        then show ?thesis using gX by (simp add: r_keep)
      next
        case False
        then show ?thesis
          using ghostInvD(6)[OF K, of i] by (auto simp: r_keep gc X_def)
      qed
      show "fadeInsOf fs \<subseteq> T" using ghostInvD(7)[OF K] by (simp add: fc)
    qed
    moreover have "fadesDone T tr st0 [f] st st1"
      using Tg r_core r_next r_other r_keep(4)
      by (simp add: fadesDone_def fe)
    ultimately show "ghostInv T tr st0 fs (finishFade tr True st f)
        \<and> fadesDone T tr st0 [f] st (finishFade tr True st f)"
      unfolding st1_def[symmetric] by simp
  qed
qed

lemma fadeInsOf_split: "fadeInsOf (f # fs) = fadeInsOf [f] \<union> fadeInsOf fs"
  by (auto simp: fadeInsOf_def)

lemma fadesDone_trans:
  assumes "fadesDone T tr st0 [f] st st1" and "fadesDone T tr st0 fs st1 st'"
  shows "fadesDone T tr st0 (f # fs) st st'"
  using assms unfolding fadesDone_def fadeInsOf_split[of f fs] by auto

lemma fadesDone_Nil: "fadesDone T tr st0 [] st st"
  by (simp add: fadesDone_def fadeInsOf_def)

lemma finishFade_step:
  assumes T0: "\<And>a. a \<in> T \<Longrightarrow> a < next st0" and trT: "tr \<in> T"
    and K: "ghostInv T tr st0 (f # fs) st"
  shows "ghostInv T tr st0 fs (finishFade tr True st f)"
    and "fadesDone T tr st0 [f] st (finishFade tr True st f)"
  using finishFade_in[OF T0 trT K] finishFade_out[OF T0 trT K]
  by (cases "fade_type f"; simp)+

lemma finishFades:
  assumes T0: "\<And>a. a \<in> T \<Longrightarrow> a < next st0" and trT: "tr \<in> T"
  shows "ghostInv T tr st0 fs st
    \<Longrightarrow> fadesDone T tr st0 fs st (foldl (finishFade tr True) st fs)
        \<and> ghostInv T tr st0 [] (foldl (finishFade tr True) st fs)"
proof (induction fs arbitrary: st)
  case Nil
  then show ?case by (simp add: fadesDone_Nil)
next
  case (Cons f fs)
  have 1: "ghostInv T tr st0 fs (finishFade tr True st f)"
    and 2: "fadesDone T tr st0 [f] st (finishFade tr True st f)"
    using finishFade_step[OF T0 trT Cons.prems] by simp_all
  from Cons.IH[OF 1] fadesDone_trans[OF 2] show ?case by simp
qed

lemma filter_all: "filter P xs = ys \<Longrightarrow> \<forall>x \<in> set xs. P x \<Longrightarrow> xs = ys"
  by (simp add: filter_id_conv)

lemma ghostInv_Nil:
  assumes "ghostInv T tr st0 [] st"
  shows "\<And>a. a \<in> T \<Longrightarrow> children (heap st a) = children (heap st0 a)"
    and "index (heap st tr) = index (heap st0 tr)"
proof -
  have e: "ghostsOf [] = {}" by (simp add: ghostsOf_def)
  show "children (heap st a) = children (heap st0 a)" if "a \<in> T" for a
  proof (rule filter_all[where P = "\<lambda>c. c < next st0"])
    show "filter (\<lambda>c. c < next st0) (children (heap st a)) = children (heap st0 a)"
      using ghostInvD(4)[OF assms that] .
    show "\<forall>x \<in> set (children (heap st a)). x < next st0"
      using ghostInvD(5)[OF assms that] by (auto simp: e)
  qed
  show "index (heap st tr) = index (heap st0 tr)"
    using ghostInvD(6)[OF assms] by (auto simp: e)
qed

lemma finishMove_cell:
  "heap (finishMove st km) a =
     (if a = move_element (snd km) then (heap st a)\<lparr>position := Some (toPosition (snd km))\<rparr> else heap st a)"
  "next (finishMove st km) = next st"
  by (simp_all add: finishMove_def heap_modify next_modify)

lemma finishMoves_cells:
  assumes "\<forall>km \<in> set kms. position (heap st0 (move_element (snd km))) = Some (toPosition (snd km))"
  shows "heap (foldl finishMove st kms) a =
           (if a \<in> (\<lambda>km. move_element (snd km)) ` set kms
            then (heap st a)\<lparr>position := position (heap st0 a)\<rparr> else heap st a)"
  using assms
proof (induction kms arbitrary: st)
  case Nil
  show ?case by simp
next
  case (Cons km kms)
  have ih: "heap (foldl finishMove (finishMove st km) kms) a =
           (if a \<in> (\<lambda>km. move_element (snd km)) ` set kms
            then (heap (finishMove st km) a)\<lparr>position := position (heap st0 a)\<rparr>
            else heap (finishMove st km) a)"
    using Cons.IH[of "finishMove st km"] Cons.prems by simp
  have p: "position (heap st0 (move_element (snd km))) = Some (toPosition (snd km))"
    using Cons.prems by simp
  show ?case
    using ih p by (auto simp: finishMove_cell)
qed

lemma finishMoves_next: "next (foldl finishMove st kms) = next st"
  by (induction kms arbitrary: st) (simp_all add: finishMove_cell)

lemma moves_foldl_sound:
  "(k, j) \<in> set (foldl (\<lambda>movesMap mv. AList.update (move_elementId mv) mv movesMap) acc ms)
   \<Longrightarrow> (k, j) \<in> set acc \<or> (j \<in> set ms \<and> k = move_elementId j)"
proof (induction ms arbitrary: acc)
  case Nil
  then show ?case by simp
next
  case (Cons m ms)
  from Cons.IH[OF Cons.prems[simplified]]
  show ?case using set_update_cases[of k j "move_elementId m" m acc] by auto
qed

lemma moves_foldl_keys:
  "fst ` set (foldl (\<lambda>movesMap mv. AList.update (move_elementId mv) mv movesMap) acc ms)
     = fst ` set acc \<union> move_elementId ` set ms"
  by (induction ms arbitrary: acc) (auto simp: dom_update)

lemma toMovesMap_sound:
  "(k, j) \<in> set (toMovesMap ms) \<Longrightarrow> j \<in> set ms \<and> k = move_elementId j"
  using moves_foldl_sound[of k j "[]" ms] by (simp add: toMovesMap_def)

lemma toMovesMap_keys: "fst ` set (toMovesMap ms) = move_elementId ` set ms"
  using moves_foldl_keys[of "[]" ms] by (simp add: toMovesMap_def)

lemma resizes_foldl_sound:
  "(k, j) \<in> set (foldl (\<lambda>resizesMap rz. AList.update (kf rz) rz resizesMap) acc rs)
   \<Longrightarrow> (k, j) \<in> set acc \<or> j \<in> set rs"
proof (induction rs arbitrary: acc)
  case Nil
  then show ?case by simp
next
  case (Cons m ms)
  from Cons.IH[OF Cons.prems[simplified]]
  show ?case using set_update_cases[of k j "kf m" m acc] by auto
qed

lemma toResizesMap_sound: "(k, j) \<in> set (toResizesMap st rs) \<Longrightarrow> j \<in> set rs"
  using resizes_foldl_sound[of k j "\<lambda>rz. elem_id (heap st (resize_element rz))" "[]" rs]
  by (simp add: toResizesMap_def)

lemma modify_same_cell: "f (heap st a) = heap st a \<Longrightarrow> modify a f st = st"
  by (simp add: modify_def)

lemma finishResize_id:
  assumes "bounds (heap st (resize_element (snd kr))) = Some b"
    and "toDimension (snd kr) = \<lparr>dim_width = bounds_width b, dim_height = bounds_height b\<rparr>"
  shows "finishResize st kr = st"
  unfolding finishResize_def using assms by (intro modify_same_cell) simp

lemma finishResizes_id:
  "\<forall>kr \<in> set krs. \<exists>b. bounds (heap st (resize_element (snd kr))) = Some b
        \<and> toDimension (snd kr) = \<lparr>dim_width = bounds_width b, dim_height = bounds_height b\<rparr>
   \<Longrightarrow> foldl finishResize st krs = st"
proof (induction krs)
  case Nil
  show ?case by simp
next
  case (Cons kr krs)
  then have "finishResize st kr = st"
    using finishResize_id[of st kr] by auto
  then show ?case using Cons by simp
qed

lemma toMovesMap_Nil: "toMovesMap [] = []"
  by (simp add: toMovesMap_def)

lemma toResizesMap_Nil: "toResizesMap st [] = []"
  by (simp add: toResizesMap_def)

lemma finish_createAnimations:
  "foldl (\<lambda>s f. f s) st (map finish (createAnimations d tr st)) = finishAll d tr st"
proof -
  have f: "foldl (\<lambda>s f. f s) st (map finish (if 0 < length (fades d) then [FadeAnimation tr (fades d) True] else []))
        = foldl (finishFade tr True) st (fades d)" for st
    by simp
  have m: "foldl (\<lambda>s f. f s) st (map finish (case moves d of
                          Some ms \<Rightarrow> if length ms > 0 then [MoveAnimation tr (toMovesMap ms) False] else []
                        | None \<Rightarrow> []))
        = foldl finishMove st (toMovesMap (movesOf d))" for st
    by (simp add: movesOf_def toMovesMap_Nil split: option.splits)
  have r: "foldl (\<lambda>s f. f s) st' (map finish (case resizes d of
                          Some rs \<Rightarrow> if length rs > 0 then [ResizeAnimation tr (toResizesMap st rs) False] else []
                        | None \<Rightarrow> []))
        = foldl finishResize st' (toResizesMap st (resizesOf d))" for st'
    by (simp add: resizesOf_def toResizesMap_Nil split: option.splits)
  have c: "createAnimations d tr st =
      (if 0 < length (fades d) then [FadeAnimation tr (fades d) True] else [])
      @ (case moves d of
           Some ms \<Rightarrow> if length ms > 0 then [MoveAnimation tr (toMovesMap ms) False] else []
         | None \<Rightarrow> [])
      @ (case resizes d of
           Some rs \<Rightarrow> if length rs > 0 then [ResizeAnimation tr (toResizesMap st rs) False] else []
         | None \<Rightarrow> [])"
    by (simp add: createAnimations_def Let_def split: option.splits)
  show ?thesis
    unfolding c map_append foldl_append f m r finishAll_def ..
qed

lemma settle_animations:
  "settle (case (if length as \<ge> 2 then IsAnimation (CompoundAnimation tr as)
                 else if length as = 1 then IsAnimation (as ! 0)
                 else IsRoot tr) of
             IsAnimation a \<Rightarrow> ResultPromise a
           | IsRoot r \<Rightarrow> ResultRoot r) st
   = foldl (\<lambda>s f. f s) st (map finish as)"
proof (cases as)
  case Nil
  then show ?thesis by (simp add: settle_def)
next
  case (Cons a bs)
  then show ?thesis by (cases bs) (simp_all add: settle_def)
qed

lemma performUpdate_settle:
  assumes "animate (cmd_action cmd) = Some True" and "elem_id (heap st ol) = elem_id (heap st nw)"
    and "matches (cmd_action cmd) = None"
    and "performUpdate imp cmd ol nw ctx st = (res, s1)"
  shows "settle res s1 =
           finishAll (fst (collectAnimationData imp ctx nw (modelMatcher imp st ol nw) st)) nw
             (snd (collectAnimationData imp ctx nw (modelMatcher imp st ol nw) st))"
proof -
  define c where "c = collectAnimationData imp ctx nw (modelMatcher imp st ol nw) st"
  define as where "as = createAnimations (fst c) nw (snd c)"
  have "performUpdate imp cmd ol nw ctx st =
      (case (if length as \<ge> 2 then IsAnimation (CompoundAnimation nw as)
                 else if length as = 1 then IsAnimation (as ! 0)
                 else IsRoot nw) of
             IsAnimation a \<Rightarrow> ResultPromise a
           | IsRoot r \<Rightarrow> ResultRoot r, snd c)"
    using assms(1-3)
    by (simp add: performUpdate_def computeAnimation_def Let_def case_prod_unfold c_def as_def)
  with assms(4) have r: "res = (case (if length as \<ge> 2 then IsAnimation (CompoundAnimation nw as)
                 else if length as = 1 then IsAnimation (as ! 0)
                 else IsRoot nw) of
             IsAnimation a \<Rightarrow> ResultPromise a
           | IsRoot r \<Rightarrow> ResultRoot r)" and s: "s1 = snd c"
    by simp_all
  show ?thesis
    unfolding r s settle_animations c_def[symmetric]
    by (simp add: as_def finish_createAnimations)
qed

lemma duringCell_keeps:
  "children (duringCell imp st0 ms a) = children (heap st0 a)"
  "index (duringCell imp st0 ms a) = index (heap st0 a)"
  "elem_id (duringCell imp st0 ms a) = elem_id (heap st0 a)"
  "parent (duringCell imp st0 ms a) = parent (heap st0 a)"
  "elem_class (duringCell imp st0 ms a) = elem_class (heap st0 a)"
  by (simp_all add: duringCell_def stepCell_keeps fadeStart_def split: list.splits option.splits)

lemma cell_rebuild:
  "core e' = core e \<Longrightarrow> payload e = payload dc \<Longrightarrow> opacity e' = x
   \<Longrightarrow> children e' = children dc \<Longrightarrow> index e' = index dc \<Longrightarrow> e' = dc\<lparr>opacity := x\<rparr>"
  by (cases e; cases e'; cases dc) (simp add: core_def payload_def)

lemma core_fields:
  assumes "core e = core e'"
  shows "position e = position e'" "bounds e = bounds e'"
  using assms by (cases e; cases e'; simp add: core_def)+

subsection \<open>The new tree at the end of a pass\<close>

lemma matchesOk_rights: "matchesOk S T ms \<Longrightarrow> set (rightsOf ms) \<subseteq> T"
  by (auto simp: matchesOk_def set_rightsOf)

lemma pass_effect:
  fixes imp :: imported
  assumes ok: "treesOk S T tr st0"
    and fac: "factoryAllocatesOnly (ctx_modelFactory ctx)" "factoryCopies (ctx_modelFactory ctx)"
    and pm: "properMatch S T mr"
  defines "c \<equiv> collectAnimationData imp ctx tr mr st0"
  shows "\<And>a. a \<in> T \<Longrightarrow> heap (finishAll (fst c) tr (snd c)) a = finalCell imp st0 (map snd mr) a"
    and "\<And>a. a < next st0 \<Longrightarrow> a \<notin> T \<Longrightarrow> heap (finishAll (fst c) tr (snd c)) a = heap st0 a"
    and "next st0 \<le> next (finishAll (fst c) tr (snd c))"
proof -
  define ms where "ms = map snd mr"
  define d where "d = fst c"
  define st1 where "st1 = snd c"
  define sF where "sF = foldl (finishFade tr True) st1 (fades d)"
  define kms where "kms = toMovesMap (movesOf d)"
  define sM where "sM = foldl finishMove sF kms"
  define E where "E = (\<lambda>km. move_element (snd km)) ` set kms"
  have "passInv imp T tr st0 ms (d, st1)"
    using passInv_collect[OF ok fac pm, of imp] by (simp add: ms_def d_def st1_def c_def)
  then have fr: "inv_frame T st0 st1" and pl: "inv_payload imp T tr st0 ms st1"
    and gh: "ghostInv T tr st0 (fades d) st1"
    and fi: "inv_fadeIns st0 ms (fades d)" and mv: "inv_moves T st0 d st1"
    and rs: "inv_resizes ms d st1"
    by (simp_all add: passInv_def)
  have T0: "\<And>a. a \<in> T \<Longrightarrow> a < next st0" and trT: "tr \<in> T"
    and inj: "inj_on (\<lambda>a. elem_id (heap st0 a)) T"
    using treesOkD[OF ok] by auto
  have rT: "set (rightsOf ms) \<subseteq> T"
    using pm matchesOk_rights[of S T ms] by (simp add: properMatch_def ms_def)
  have fd: "fadesDone T tr st0 (fades d) st1 sF" and gn: "ghostInv T tr st0 [] sF"
    using finishFades[OF T0 trT gh] by (simp_all add: sF_def)
  have jobs: "snd km \<in> set (movesOf d) \<and> fst km = move_elementId (snd km)" if "km \<in> set kms" for km
    using toMovesMap_sound[of "fst km" "snd km" "movesOf d"] that by (simp add: kms_def)
  have jobsD: "move_element j \<in> T" "position (heap st0 (move_element j)) = Some (toPosition j)"
    "move_elementId j = elem_id (heap st0 (move_element j))" if "j \<in> set (movesOf d)" for j
    using mv that by (simp_all add: inv_moves_def)
  have tgt: "\<forall>km \<in> set kms. position (heap st0 (move_element (snd km))) = Some (toPosition (snd km))"
    using jobs jobsD(2) by blast
  have cells: "heap sM a = (if a \<in> E then (heap sF a)\<lparr>position := position (heap st0 a)\<rparr> else heap sF a)" for a
    unfolding sM_def E_def by (rule finishMoves_cells[OF tgt])
  have ET: "E \<subseteq> T"
    using jobs jobsD(1) by (auto simp: E_def)
  have cover: "a \<in> E" if a: "a \<in> T" and m: "a \<in> move_element ` set (movesOf d)" for a
  proof -
    from m obtain j where j: "j \<in> set (movesOf d)" "move_element j = a" by auto
    then have "move_elementId j \<in> fst ` set kms"
      by (simp add: kms_def toMovesMap_keys)
    then obtain km where km: "km \<in> set kms" "fst km = move_elementId j" by auto
    have j': "snd km \<in> set (movesOf d)" "move_elementId (snd km) = move_elementId j"
      using jobs[OF km(1)] km(2) by simp_all
    have "elem_id (heap st0 (move_element (snd km))) = elem_id (heap st0 a)"
      using jobsD(3)[OF j'(1)] jobsD(3)[OF j(1)] j'(2) j(2) by simp
    then have "move_element (snd km) = a"
      using inj jobsD(1)[OF j'(1)] a by (auto dest: inj_onD)
    then show ?thesis using km(1) by (auto simp: E_def)
  qed
  have sFT: "core (heap sF a) = core (heap st1 a)"
    "opacity (heap sF a) = (if a \<in> fadeInsOf (fades d) then Some 1 else opacity (heap st1 a))"
    "a \<noteq> tr \<Longrightarrow> index (heap sF a) = index (heap st1 a)" if "a \<in> T" for a
    using fd that by (simp_all add: fadesDone_def)
  have sFo: "heap sF a = heap st1 a" if "a < next st0" "a \<notin> T" for a
    using fd that by (simp add: fadesDone_def)
  have sFn: "next sF = next st1"
    using fd by (simp add: fadesDone_def)
  have res: "foldl finishResize sM (toResizesMap st1 (resizesOf d)) = sM"
  proof (rule finishResizes_id, rule ballI)
    fix kr assume "kr \<in> set (toResizesMap st1 (resizesOf d))"
    then have j: "snd kr \<in> set (resizesOf d)"
      using toResizesMap_sound[of "fst kr" "snd kr" st1 "resizesOf d"] by simp
    then have e: "resize_element (snd kr) \<in> T"
      and b: "\<exists>b. bounds (heap st1 (resize_element (snd kr))) = Some b
            \<and> toDimension (snd kr) = \<lparr>dim_width = bounds_width b, dim_height = bounds_height b\<rparr>"
      using rs rT by (auto simp: inv_resizes_def)
    have "bounds (heap sM (resize_element (snd kr))) = bounds (heap sF (resize_element (snd kr)))"
      by (simp add: cells)
    also have "\<dots> = bounds (heap st1 (resize_element (snd kr)))"
      using core_fields(2)[OF sFT(1)[OF e]] .
    finally show "\<exists>b. bounds (heap sM (resize_element (snd kr))) = Some b
            \<and> toDimension (snd kr) = \<lparr>dim_width = bounds_width b, dim_height = bounds_height b\<rparr>"
      using b by simp
  qed
  have fa: "finishAll (fst c) tr (snd c) = sM"
    using res by (simp add: finishAll_def sM_def kms_def sF_def d_def st1_def)
  show "heap (finishAll (fst c) tr (snd c)) a = finalCell imp st0 (map snd mr) a" if a: "a \<in> T" for a
  proof -
    have pa: "payload (heap st1 a) = payload (duringCell imp st0 ms a)"
      and ia: "a \<noteq> tr \<Longrightarrow> index (heap st1 a) = index (heap st0 a)"
      using pl a by (simp_all add: inv_payload_def)
    define x where "x = (if addedFadeable st0 ms a then Some 1 else opacity (duringCell imp st0 ms a))"
    have ox: "opacity (heap sF a) = x"
      using sFT(2)[OF a] fi payload_fields(4)[OF pa] by (simp add: inv_fadeIns_def x_def)
    have ch: "children (heap sF a) = children (duringCell imp st0 ms a)"
      using ghostInv_Nil(1)[OF gn a] by (simp add: duringCell_keeps)
    have ix: "index (heap sF a) = index (duringCell imp st0 ms a)"
      using ghostInv_Nil(2)[OF gn] sFT(3)[OF a] ia by (cases "a = tr") (simp_all add: duringCell_keeps)
    have sFa: "heap sF a = (duringCell imp st0 ms a)\<lparr>opacity := x\<rparr>"
      by (rule cell_rebuild[OF sFT(1)[OF a] pa ox ch ix])
    have "heap sM a = (heap sF a)\<lparr>position := position (heap st0 a)\<rparr>"
    proof (cases "a \<in> E")
      case True
      then show ?thesis by (simp add: cells)
    next
      case False
      then have "a \<notin> move_element ` set (movesOf d)"
        using cover[OF a] by auto
      then have "position (heap st1 a) = position (heap st0 a)"
        using mv a unfolding inv_moves_def by blast
      then have "position (heap sF a) = position (heap st0 a)"
        using core_fields(1)[OF sFT(1)[OF a]] by simp
      then have "(heap sF a)\<lparr>position := position (heap st0 a)\<rparr> = heap sF a"
        by (metis element.surjective element.update_convs(4))
      then show ?thesis using False by (simp add: cells)
    qed
    then show ?thesis
      unfolding fa by (simp add: sFa finalCell_def x_def ms_def)
  qed
  show "heap (finishAll (fst c) tr (snd c)) a = heap st0 a" if "a < next st0" "a \<notin> T" for a
  proof -
    have "a \<notin> E" using that ET by auto
    then show ?thesis
      unfolding fa using sFo[OF that] fr that by (simp add: cells inv_frame_def)
  qed
  show "next st0 \<le> next (finishAll (fst c) tr (snd c))"
    unfolding fa using fr sFn by (simp add: sM_def finishMoves_next inv_frame_def)
qed

subsection \<open>Three passes\<close>

lemma element_eqI:
  "elem_class (e :: element) = elem_class (e' :: element) \<Longrightarrow> elem_id e = elem_id e' \<Longrightarrow> elem_type e = elem_type e'
   \<Longrightarrow> position e = position e' \<Longrightarrow> bounds e = bounds e' \<Longrightarrow> selected e = selected e'
   \<Longrightarrow> opacity e = opacity e' \<Longrightarrow> canvasBounds e = canvasBounds e' \<Longrightarrow> scroll e = scroll e'
   \<Longrightarrow> zoom e = zoom e' \<Longrightarrow> parent e = parent e' \<Longrightarrow> children e = children e'
   \<Longrightarrow> index e = index e' \<Longrightarrow> e = e'"
  by (cases e; cases e') simp

lemma posCell_keeps2:
  "elem_type (posCell imp el er) = elem_type er" "canvasBounds (posCell imp el er) = canvasBounds er"
  "scroll (posCell imp el er) = scroll er" "zoom (posCell imp el er) = zoom er"
  by (simp_all add: posCell_def split: option.splits)

lemma boundsCell_keeps2:
  "elem_type (boundsCell imp el er) = elem_type er" "canvasBounds (boundsCell imp el er) = canvasBounds er"
  "scroll (boundsCell imp el er) = scroll er" "zoom (boundsCell imp el er) = zoom er"
  "bounds (boundsCell imp el er) = syncBounds imp (bounds el) (bounds er)"
  by (simp_all add: boundsCell_def syncBounds_def split: option.splits)

lemma selCell_keeps2:
  "elem_type (selCell el er) = elem_type er" "canvasBounds (selCell el er) = canvasBounds er"
  "scroll (selCell el er) = scroll er" "zoom (selCell el er) = zoom er"
  "selected (selCell el er) = syncSelected (selected el) (selected er)"
  by (simp_all add: selCell_def syncSelected_def isSelectable_def)

lemma cbCell_keeps2:
  "elem_type (cbCell el er) = elem_type er"
  "scroll (cbCell el er) = scroll er" "zoom (cbCell el er) = zoom er"
  "canvasBounds (cbCell el er) =
     (if instanceofSModelRoot (elem_class el) \<and> instanceofSModelRoot (elem_class er)
      then canvasBounds el else canvasBounds er)"
  by (simp_all add: cbCell_def)

lemma vpCell_keeps2:
  "elem_type (vpCell el er) = elem_type er"
  "scroll (vpCell el er) =
     (if instanceofViewportRootElement (elem_class el) \<and> instanceofViewportRootElement (elem_class er)
      then scroll el else scroll er)"
  "zoom (vpCell el er) =
     (if instanceofViewportRootElement (elem_class el) \<and> instanceofViewportRootElement (elem_class er)
      then zoom el else zoom er)"
  by (simp_all add: vpCell_def)

lemma syncCell_fields:
  "elem_class (syncCell imp el er) = elem_class er"
  "elem_id (syncCell imp el er) = elem_id er"
  "elem_type (syncCell imp el er) = elem_type er"
  "position (syncCell imp el er) = position er"
  "bounds (syncCell imp el er) = syncBounds imp (bounds el) (bounds er)"
  "selected (syncCell imp el er) = syncSelected (selected el) (selected er)"
  "opacity (syncCell imp el er) = opacity er"
  "canvasBounds (syncCell imp el er) =
     (if instanceofSModelRoot (elem_class el) \<and> instanceofSModelRoot (elem_class er)
      then canvasBounds el else canvasBounds er)"
  "scroll (syncCell imp el er) =
     (if instanceofViewportRootElement (elem_class el) \<and> instanceofViewportRootElement (elem_class er)
      then scroll el else scroll er)"
  "zoom (syncCell imp el er) =
     (if instanceofViewportRootElement (elem_class el) \<and> instanceofViewportRootElement (elem_class er)
      then zoom el else zoom er)"
  "parent (syncCell imp el er) = parent er"
  "children (syncCell imp el er) = children er"
  "index (syncCell imp el er) = index er"
  by (simp_all add: syncCell_def stepCell_def
      posCell_keeps boundsCell_keeps selCell_keeps cbCell_keeps vpCell_keeps
      posCell_keeps2 boundsCell_keeps2 selCell_keeps2 cbCell_keeps2 vpCell_keeps2)





lemma rightsOf_Cons:
  "rightsOf (m # ms) = (case right m of Some r \<Rightarrow> r # rightsOf ms | None \<Rightarrow> rightsOf ms)"
  by (simp add: rightsOf_def List.map_filter_def split: option.splits)

lemma filter_unique:
  "distinct (rightsOf ms) \<Longrightarrow> m \<in> set ms \<Longrightarrow> right m = Some r
   \<Longrightarrow> filter (\<lambda>m. right m = Some r) ms = [m]"
proof (induction ms)
  case Nil
  then show ?case by simp
next
  case (Cons x xs)
  show ?case
  proof (cases "right x = Some r")
    case True
    then have n: "r \<notin> set (rightsOf xs)" and d: "distinct (rightsOf xs)"
      using Cons.prems(1) by (simp_all add: rightsOf_Cons)
    have "filter (\<lambda>m. right m = Some r) xs = []"
      using n by (auto simp: set_rightsOf filter_empty_conv)
    moreover have "m = x"
      using Cons.prems(2,3) n by (auto simp: set_rightsOf)
    ultimately show ?thesis using True by simp
  next
    case False
    then have "m \<in> set xs" using Cons.prems(2,3) by auto
    moreover have "distinct (rightsOf xs)"
      using Cons.prems(1) by (simp add: rightsOf_Cons split: option.splits)
    ultimately show ?thesis
      using Cons.IH Cons.prems(3) False by simp
  qed
qed


lemma finalCell_pair:
  assumes "matchesOk S T ms" and "(l, r) \<in> pairsOf ms"
  shows "finalCell imp st0 ms r = syncCell imp (heap st0 l) (heap st0 r)"
proof -
  from assms(2) obtain m where m: "m \<in> set ms" "left m = Some l" "right m = Some r"
    by (auto simp: pairsOf_def)
  have d: "distinct (rightsOf ms)" using assms(1) by (simp add: matchesOk_def)
  have f: "filter (\<lambda>m. right m = Some r) ms = [m]"
    by (rule filter_unique[OF d m(1,3)])
  have dc: "duringCell imp st0 ms r = stepCell imp (heap st0 l) (heap st0 r)"
    using f m(2) by (simp add: duringCell_def)
  have "\<not> addedFadeable st0 ms r"
  proof
    assume "addedFadeable st0 ms r"
    then obtain m' where m': "m' \<in> set ms" "left m' = None" "right m' = Some r"
      by (auto simp: addedFadeable_def)
    then have "m' \<in> set (filter (\<lambda>m. right m = Some r) ms)" by simp
    then have "m' = m" using f by simp
    then show False using m(2) m'(2) by simp
  qed
  then show ?thesis
    by (simp add: finalCell_def dc syncCell_def)
qed

lemma finalCell_added:
  assumes "matchesOk S T ms" and "r \<in> addedOf ms"
  shows "finalCell imp st0 ms r = fadeEnd (heap st0 r)"
proof -
  from assms(2) obtain m where m: "m \<in> set ms" "left m = None" "right m = Some r"
    by (auto simp: addedOf_def)
  have d: "distinct (rightsOf ms)" using assms(1) by (simp add: matchesOk_def)
  have f: "filter (\<lambda>m. right m = Some r) ms = [m]"
    by (rule filter_unique[OF d m(1,3)])
  have dc: "duringCell imp st0 ms r = fadeStart (heap st0 r)"
    using f m(2) by (simp add: duringCell_def)
  have af: "addedFadeable st0 ms r = isFadeable (heap st0 r)"
    using m by (auto simp: addedFadeable_def)
  show ?thesis
    by (simp add: finalCell_def dc af fadeStart_def fadeEnd_def)
qed




lemma animated_pass:
  assumes an: "animate (cmd_action cmd) = Some True"
    and ids: "elem_id (heap st ol) = elem_id (heap st nw)"
    and mt: "matches (cmd_action cmd) = None"
    and ok: "treesOk S T nw st"
    and fac: "factoryAllocatesOnly (ctx_modelFactory ctx)" "factoryCopies (ctx_modelFactory ctx)"
    and pm: "properMatch S T (modelMatcher imp st ol nw)"
    and p: "performUpdate imp cmd ol nw ctx st = (res, s)"
  shows "\<And>a. a \<in> T \<Longrightarrow> heap (settle res s) a = finalCell imp st (map snd (modelMatcher imp st ol nw)) a"
    and "\<And>a. a < next st \<Longrightarrow> a \<notin> T \<Longrightarrow> heap (settle res s) a = heap st a"
    and "next st \<le> next (settle res s)"
  unfolding performUpdate_settle[OF an ids mt p]
  using pass_effect[OF ok fac pm, where imp = imp] by simp_all





lemma pairsOf_simps:
  "pairsOf [] = {}"
  "pairsOf (m # ms) = (case (left m, right m) of
                         (Some l, Some r) \<Rightarrow> insert (l, r) (pairsOf ms)
                       | _ \<Rightarrow> pairsOf ms)"
  by (auto simp: pairsOf_def split: option.splits)

lemma addedOf_simps:
  "addedOf [] = {}"
  "addedOf (m # ms) = (case (left m, right m) of
                         (None, Some r) \<Rightarrow> insert r (addedOf ms)
                       | _ \<Rightarrow> addedOf ms)"
  by (auto simp: addedOf_def split: option.splits)

lemma rightsOf_Nil: "rightsOf [] = []"
  by (simp add: rightsOf_def List.map_filter_def)

lemma roundTripFactory_allocates: "factoryAllocatesOnly roundTripFactory"
  using exampleFactory_allocates by (simp add: factoryAllocatesOnly_def roundTripFactory_def)

lemma roundTripFactory_copies: "factoryCopies roundTripFactory"
  by (auto simp: factoryCopies_def roundTripFactory_def exampleFactory_def allocate_def
      split: source.splits)

lemma example_treesOk:
  "treesOk {0, 1, 2} {3, 4, 5} 3 exampleState"
  "treesOk {3, 4, 5} {0, 1, 2} 0 exampleState"
  by (auto simp: treesOk_def exampleState_def exampleHeap_def blankElement_def inj_on_def
      split: if_splits)

lemma example_matcher:
  "matcherAgrees roundTripImported {0, 1, 2} {3, 4, 5} 0 3 exampleState u1 u2"
  by (simp add: matcherAgrees_def roundTripImported_def properMatch_def matchesOk_def
      exampleMatchResult_def exampleMirrorResult_def rightsOf_Cons rightsOf_Nil
      pairsOf_simps addedOf_simps)


text \<open>
  The new tree of the example when the animation of the execution has ended: the root has
  the canvas bounds of the old root; the element \<^verbatim>\<open>a\<close> is at its own position, with the
  width and the height of the old element, since its own were not valid, and with the
  selection flag of the old element; the added element \<^verbatim>\<open>c\<close> has the opacity 1.
\<close>

lemma example_executed_tree:
  "heap (settle (fst exampleExecute) (snd exampleExecute)) 3
     = (exampleHeap 3)\<lparr>canvasBounds :=
          Some \<lparr>bounds_x = 0, bounds_y = 0, bounds_width = 800, bounds_height = 600\<rparr>\<rparr>"
  "heap (settle (fst exampleExecute) (snd exampleExecute)) 4
     = (exampleHeap 4)\<lparr>bounds :=
          Some \<lparr>bounds_x = 10, bounds_y = 0, bounds_width = 5, bounds_height = 5\<rparr>,
          selected := Some True\<rparr>"
  "heap (settle (fst exampleExecute) (snd exampleExecute)) 5 = exampleHeap 5"
proof -
  have an: "animate (cmd_action executedCommand) = Some True"
    and mt: "matches (cmd_action executedCommand) = None"
    by (simp_all add: executedCommand_def roundTripCommand_def UpdateModelCommand_def
        UpdateModelAction_def)
  have ids: "elem_id (heap exampleState 0) = elem_id (heap exampleState 3)"
    by (simp add: exampleState_def exampleHeap_def)
  have fac: "factoryAllocatesOnly (ctx_modelFactory roundTripContext)"
    "factoryCopies (ctx_modelFactory roundTripContext)"
    by (simp_all add: roundTripContext_def roundTripFactory_allocates roundTripFactory_copies)
  have mm: "modelMatcher roundTripImported exampleState 0 3 = exampleMatchResult"
    by (simp add: roundTripImported_def)
  have pm: "properMatch {0, 1, 2} {3, 4, 5} (modelMatcher roundTripImported exampleState 0 3)"
    using example_matcher[of exampleState exampleState] by (simp add: matcherAgrees_def)
  have mo: "matchesOk {0, 1, 2} {3, 4, 5} (map snd exampleMatchResult)"
    using pm by (simp add: properMatch_def mm)
  have p: "performUpdate roundTripImported executedCommand 0 3 roundTripContext exampleState
             = (fst exampleExecute, snd exampleExecute)"
    by (simp add: exampleExecute_def)
  have fin: "heap (settle (fst exampleExecute) (snd exampleExecute)) a
               = finalCell roundTripImported exampleState (map snd exampleMatchResult) a"
    if "a \<in> {3, 4, 5}" for a
    using animated_pass(1)[OF an ids mt example_treesOk(1) fac pm p that] by (simp add: mm)
  have pairs: "(0, 3) \<in> pairsOf (map snd exampleMatchResult)"
    "(1, 4) \<in> pairsOf (map snd exampleMatchResult)"
    and added: "5 \<in> addedOf (map snd exampleMatchResult)"
    by (simp_all add: exampleMatchResult_def pairsOf_simps addedOf_simps)
  have imp: "isValidDimension roundTripImported = isValidDimensionSpec"
    by (simp add: roundTripImported_def)
  show "heap (settle (fst exampleExecute) (snd exampleExecute)) 3
     = (exampleHeap 3)\<lparr>canvasBounds :=
          Some \<lparr>bounds_x = 0, bounds_y = 0, bounds_width = 800, bounds_height = 600\<rparr>\<rparr>"
    unfolding fin[of 3, simplified] finalCell_pair[OF mo pairs(1)]
    by (rule element_eqI)
      (simp_all add: syncCell_fields syncBounds_def syncSelected_def exampleState_def
        exampleHeap_def blankElement_def)
  show "heap (settle (fst exampleExecute) (snd exampleExecute)) 4
     = (exampleHeap 4)\<lparr>bounds :=
          Some \<lparr>bounds_x = 10, bounds_y = 0, bounds_width = 5, bounds_height = 5\<rparr>,
          selected := Some True\<rparr>"
    unfolding fin[of 4, simplified] finalCell_pair[OF mo pairs(2)]
    by (rule element_eqI)
      (simp_all add: syncCell_fields syncBounds_def syncSelected_def exampleState_def
        exampleHeap_def blankElement_def imp isValidDimensionSpec_def)
  show "heap (settle (fst exampleExecute) (snd exampleExecute)) 5 = exampleHeap 5"
    unfolding fin[of 5, simplified] finalCell_added[OF mo added]
    by (simp add: fadeEnd_def isFadeable_def exampleState_def exampleHeap_def)
qed

section \<open>Fades for additions and removals\<close>

subsection \<open>The fade jobs during the loop of \<^verbatim>\<open>computeAnimation\<close>\<close>

lemma jobsInvD:
  assumes "jobsInv nr st0 ms fs st"
  shows "\<And>g. g \<in> ghostsOf fs \<Longrightarrow> index (heap st nr) (elem_id (heap st g)) \<noteq> None"
    and "\<And>g. g \<in> ghostsOf fs \<Longrightarrow> \<exists>m \<in> set ms. left m \<noteq> None \<and> right m = None
                \<and> elem_id (heap st g) = elem_id (heap st0 (the (left m)))
                \<and> \<not> neverResolves st0 nr ms (leftParentId m)"
    and "\<And>m l p. m \<in> set ms \<Longrightarrow> left m = Some l \<Longrightarrow> right m = None \<Longrightarrow> ghostWanted nr st0 m l p
            \<Longrightarrow> \<exists>g. outJobs st (elem_id (heap st0 l)) fs = [\<lparr>fade_element = g, fade_type = FadeOut\<rparr>]
                     \<and> next st0 \<le> g \<and> parent (heap st g) = Some p
                     \<and> g \<in> set (children (heap st p))"
    and "\<And>m r. m \<in> set ms \<Longrightarrow> left m = None \<Longrightarrow> right m = Some r \<Longrightarrow> isFadeable (heap st0 r)
            \<Longrightarrow> filter (\<lambda>f. fade_element f = r) fs = [\<lparr>fade_element = r, fade_type = FadeIn\<rparr>]"
  using assms unfolding jobsInv_def by blast+

lemma neverResolves_mono:
  "neverResolves st0 nr (ms @ [m]) pid \<Longrightarrow> neverResolves st0 nr ms pid"
  by (auto simp: neverResolves_def removedIds_def split: option.splits)

lemma outJobs_append: "outJobs st i (fs @ gs) = outJobs st i fs @ outJobs st i gs"
  by (simp add: outJobs_def)

lemma outJobs_ghost:
  assumes "outJobs st i fs = [\<lparr>fade_element = g, fade_type = FadeOut\<rparr>]"
  shows "g \<in> ghostsOf fs" and "elem_id (heap st g) = i"
proof -
  have "\<lparr>fade_element = g, fade_type = FadeOut\<rparr> \<in> set (outJobs st i fs)"
    using assms by simp
  then have "\<lparr>fade_element = g, fade_type = FadeOut\<rparr> \<in> set fs \<and> elem_id (heap st g) = i"
    by (simp add: outJobs_def)
  then show "g \<in> ghostsOf fs" and "elem_id (heap st g) = i"
    by (force simp: ghostsOf_def)+
qed

lemma jobsInv_carry:
  assumes J: "jobsInv nr st0 ms fs st"
    and al': "\<forall>g \<in> ghostsOf fs. g < next st"
    and T': "\<forall>a \<in> T. a < next st"
    and ix0': "\<forall>i p. index (heap st0 nr) i = Some p \<longrightarrow> p \<in> T"
    and keep': "\<forall>a. a < next st \<longrightarrow> elem_id (heap st' a) = elem_id (heap st a)
                  \<and> parent (heap st' a) = parent (heap st a)
                  \<and> set (children (heap st a)) \<subseteq> set (children (heap st' a))"
    and ix': "\<forall>i. index (heap st nr) i \<noteq> None \<longrightarrow> index (heap st' nr) i \<noteq> None"
    and out': "\<forall>f \<in> set new. fade_type f = FadeOut
                  \<longrightarrow> index (heap st nr) (elem_id (heap st' (fade_element f))) = None"
    and nor': "\<forall>f \<in> set new. \<forall>r \<in> set (rightsOf ms). fade_element f \<noteq> r"
  shows "\<And>g. g \<in> ghostsOf fs \<Longrightarrow> index (heap st' nr) (elem_id (heap st' g)) \<noteq> None
          \<and> (\<exists>m' \<in> set (ms @ [m]). left m' \<noteq> None \<and> right m' = None
                \<and> elem_id (heap st' g) = elem_id (heap st0 (the (left m')))
                \<and> \<not> neverResolves st0 nr (ms @ [m]) (leftParentId m'))"
    and "\<And>m' l p. m' \<in> set ms \<Longrightarrow> left m' = Some l \<Longrightarrow> right m' = None \<Longrightarrow> ghostWanted nr st0 m' l p
            \<Longrightarrow> \<exists>g. outJobs st' (elem_id (heap st0 l)) (fs @ new) = [\<lparr>fade_element = g, fade_type = FadeOut\<rparr>]
                     \<and> next st0 \<le> g \<and> parent (heap st' g) = Some p
                     \<and> g \<in> set (children (heap st' p))"
    and "\<And>m' r. m' \<in> set ms \<Longrightarrow> left m' = None \<Longrightarrow> right m' = Some r \<Longrightarrow> isFadeable (heap st0 r)
            \<Longrightarrow> filter (\<lambda>f. fade_element f = r) (fs @ new) = [\<lparr>fade_element = r, fade_type = FadeIn\<rparr>]"
proof -
  have al: "\<And>g. g \<in> ghostsOf fs \<Longrightarrow> g < next st"
    and T: "\<And>a. a \<in> T \<Longrightarrow> a < next st"
    and ix0: "\<And>i p. index (heap st0 nr) i = Some p \<Longrightarrow> p \<in> T"
    and keep: "\<And>a. a < next st \<Longrightarrow> elem_id (heap st' a) = elem_id (heap st a)
                  \<and> parent (heap st' a) = parent (heap st a)
                  \<and> set (children (heap st a)) \<subseteq> set (children (heap st' a))"
    and ix: "\<And>i. index (heap st nr) i \<noteq> None \<Longrightarrow> index (heap st' nr) i \<noteq> None"
    and out: "\<And>f. f \<in> set new \<Longrightarrow> fade_type f = FadeOut
                  \<Longrightarrow> index (heap st nr) (elem_id (heap st' (fade_element f))) = None"
    and nor: "\<And>f r. f \<in> set new \<Longrightarrow> r \<in> set (rightsOf ms) \<Longrightarrow> fade_element f \<noteq> r"
    using al' T' ix0' keep' ix' out' nor' by blast+
  have same: "outJobs st' i fs = outJobs st i fs" for i
    unfolding outJobs_def
  proof (rule filter_cong[OF refl])
    fix f assume f: "f \<in> set fs"
    show "(fade_type f = FadeOut \<and> elem_id (heap st' (fade_element f)) = i)
          = (fade_type f = FadeOut \<and> elem_id (heap st (fade_element f)) = i)"
    proof (cases "fade_type f = FadeOut")
      case True
      then have "fade_element f \<in> ghostsOf fs" using f by (auto simp: ghostsOf_def)
      then show ?thesis using keep[OF al] by simp
    next
      case False
      then show ?thesis by simp
    qed
  qed
  {
    fix g assume g: "g \<in> ghostsOf fs"
    have e: "elem_id (heap st' g) = elem_id (heap st g)"
      using keep[OF al[OF g]] by simp
    obtain m' where m': "m' \<in> set ms" "left m' \<noteq> None" "right m' = None"
        "elem_id (heap st g) = elem_id (heap st0 (the (left m')))"
        "\<not> neverResolves st0 nr ms (leftParentId m')"
      using jobsInvD(2)[OF J g] by blast
    have "\<not> neverResolves st0 nr (ms @ [m]) (leftParentId m')"
      using m'(5) neverResolves_mono by blast
    then have "\<exists>m' \<in> set (ms @ [m]). left m' \<noteq> None \<and> right m' = None
                \<and> elem_id (heap st' g) = elem_id (heap st0 (the (left m')))
                \<and> \<not> neverResolves st0 nr (ms @ [m]) (leftParentId m')"
      using m'(1-4) e by auto
    moreover have "index (heap st' nr) (elem_id (heap st' g)) \<noteq> None"
      using ix[OF jobsInvD(1)[OF J g]] e by simp
    ultimately show "index (heap st' nr) (elem_id (heap st' g)) \<noteq> None
          \<and> (\<exists>m' \<in> set (ms @ [m]). left m' \<noteq> None \<and> right m' = None
                \<and> elem_id (heap st' g) = elem_id (heap st0 (the (left m')))
                \<and> \<not> neverResolves st0 nr (ms @ [m]) (leftParentId m'))"
      by simp
  next
    fix m' l p
    assume m': "m' \<in> set ms" "left m' = Some l" "right m' = None" and w: "ghostWanted nr st0 m' l p"
    define X where "X = elem_id (heap st0 l)"
    obtain g where g: "outJobs st X fs = [\<lparr>fade_element = g, fade_type = FadeOut\<rparr>]"
        "next st0 \<le> g" "parent (heap st g) = Some p" "g \<in> set (children (heap st p))"
      using jobsInvD(3)[OF J m' w] unfolding X_def by blast
    have gg: "g \<in> ghostsOf fs" and gX: "elem_id (heap st g) = X"
      using outJobs_ghost[OF g(1)] by simp_all
    have iX: "index (heap st nr) X \<noteq> None"
      using jobsInvD(1)[OF J gg] gX by simp
    have "outJobs st' X new = []"
      unfolding outJobs_def filter_empty_conv
    proof (intro ballI notI)
      fix f assume f: "f \<in> set new"
        and "fade_type f = FadeOut \<and> elem_id (heap st' (fade_element f)) = X"
      then show False using out[OF f] iX by simp
    qed
    then have 1: "outJobs st' X (fs @ new) = [\<lparr>fade_element = g, fade_type = FadeOut\<rparr>]"
      using g(1) same by (simp add: outJobs_append)
    have "p \<in> T"
      using w ix0 by (auto simp: ghostWanted_def getById_def)
    then have "set (children (heap st p)) \<subseteq> set (children (heap st' p))"
      using keep[OF T] by simp
    then have 2: "g \<in> set (children (heap st' p))" using g(4) by blast
    have 3: "parent (heap st' g) = Some p"
      using keep[OF al[OF gg]] g(3) by simp
    show "\<exists>g. outJobs st' (elem_id (heap st0 l)) (fs @ new) = [\<lparr>fade_element = g, fade_type = FadeOut\<rparr>]
                     \<and> next st0 \<le> g \<and> parent (heap st' g) = Some p
                     \<and> g \<in> set (children (heap st' p))"
      using 1 2 3 g(2) unfolding X_def by blast
  next
    fix m' r
    assume m': "m' \<in> set ms" "left m' = None" "right m' = Some r" and f: "isFadeable (heap st0 r)"
    have "r \<in> set (rightsOf ms)"
      using m'(1,3) by (auto simp: set_rightsOf)
    then have "filter (\<lambda>f. fade_element f = r) new = []"
      using nor by (auto simp: filter_empty_conv)
    then show "filter (\<lambda>f. fade_element f = r) (fs @ new) = [\<lparr>fade_element = r, fade_type = FadeIn\<rparr>]"
      using jobsInvD(4)[OF J m' f] by simp
  }
qed

lemma jobsInv_snocI:
  assumes "\<And>g. g \<in> ghostsOf fs \<Longrightarrow> index (heap st nr) (elem_id (heap st g)) \<noteq> None
          \<and> (\<exists>m' \<in> set (ms @ [m]). left m' \<noteq> None \<and> right m' = None
                \<and> elem_id (heap st g) = elem_id (heap st0 (the (left m')))
                \<and> \<not> neverResolves st0 nr (ms @ [m]) (leftParentId m'))"
    and "\<And>m' l p. m' \<in> set ms \<or> m' = m \<Longrightarrow> left m' = Some l \<Longrightarrow> right m' = None \<Longrightarrow> ghostWanted nr st0 m' l p
            \<Longrightarrow> \<exists>g. outJobs st (elem_id (heap st0 l)) fs = [\<lparr>fade_element = g, fade_type = FadeOut\<rparr>]
                     \<and> next st0 \<le> g \<and> parent (heap st g) = Some p
                     \<and> g \<in> set (children (heap st p))"
    and "\<And>m' r. m' \<in> set ms \<or> m' = m \<Longrightarrow> left m' = None \<Longrightarrow> right m' = Some r \<Longrightarrow> isFadeable (heap st0 r)
            \<Longrightarrow> filter (\<lambda>f. fade_element f = r) fs = [\<lparr>fade_element = r, fade_type = FadeIn\<rparr>]"
  shows "jobsInv nr st0 (ms @ [m]) fs st"
  unfolding jobsInv_def
proof (intro conjI ballI allI impI)
  fix g assume "g \<in> ghostsOf fs"
  from assms(1)[OF this]
  show "index (heap st nr) (elem_id (heap st g)) \<noteq> None"
    and "\<exists>m' \<in> set (ms @ [m]). left m' \<noteq> None \<and> right m' = None
                \<and> elem_id (heap st g) = elem_id (heap st0 (the (left m')))
                \<and> \<not> neverResolves st0 nr (ms @ [m]) (leftParentId m')"
    by simp_all
next
  fix m' l p
  assume "m' \<in> set (ms @ [m])" "left m' = Some l \<and> right m' = None \<and> ghostWanted nr st0 m' l p"
  then show "\<exists>g. outJobs st (elem_id (heap st0 l)) fs = [\<lparr>fade_element = g, fade_type = FadeOut\<rparr>]
                     \<and> next st0 \<le> g \<and> parent (heap st g) = Some p
                     \<and> g \<in> set (children (heap st p))"
    using assms(2)[of m' l p] by auto
next
  fix m' r
  assume "m' \<in> set (ms @ [m])" "left m' = None \<and> right m' = Some r \<and> isFadeable (heap st0 r)"
  then show "filter (\<lambda>f. fade_element f = r) fs = [\<lparr>fade_element = r, fade_type = FadeIn\<rparr>]"
    using assms(3)[of m' r] by auto
qed

lemma jobsInv_step:
  assumes ok: "treesOk S T nr st0"
    and fac: "factoryAllocatesOnly (ctx_modelFactory ctx)" "factoryCopies (ctx_modelFactory ctx)"
    and inv: "passInv imp T nr st0 ms (d, st)"
    and J: "jobsInv nr st0 ms (fades d) st"
    and mok: "matchesOk S T (ms @ [m])"
    and H: "removalsDistinct st0 (ms @ [m])"
  shows "jobsInv nr st0 (ms @ [m]) (fades (fst (processMatch imp ctx nr (d, st) m)))
           (snd (processMatch imp ctx nr (d, st) m))"
proof -
  from inv have fr: "inv_frame T st0 st" and pl: "inv_payload imp T nr st0 ms st"
    and gh: "ghostInv T nr st0 (fades d) st" and al: "inv_alloc T nr st0 (fades d) st"
    and fi: "inv_fadeIns st0 ms (fades d)"
    by (simp_all add: passInv_def)
  have n0: "next st0 \<le> next st"
    using fr by (simp add: inv_frame_def)
  have T0: "\<And>a. a \<in> T \<Longrightarrow> a < next st0" and nrT: "nr \<in> T"
    and ix0: "\<And>i p. index (heap st0 nr) i = Some p \<Longrightarrow> p \<in> T"
    and ST: "S \<inter> T = {}" and S0: "\<And>a. a \<in> S \<Longrightarrow> a < next st0"
    using treesOkD[OF ok] by auto
  have Tst: "\<And>a. a \<in> T \<Longrightarrow> a < next st"
    using T0 n0 by fastforce
  have gal: "\<And>g. g \<in> ghostsOf (fades d) \<Longrightarrow> g < next st"
    using al by (simp add: inv_alloc_def)
  have g0: "\<And>g. g \<in> ghostsOf (fades d) \<Longrightarrow> next st0 \<le> g"
    using ghostInvD(1)[OF gh] .
  have rT: "set (rightsOf ms) \<subseteq> T"
    using matchesOk_snoc(4)[OF mok] .
  have cls: "elem_class (heap st a) = elem_class (heap st0 a)" if "a \<in> T" for a
    using pl that payload_fields(6)[of "heap st a" "duringCell imp st0 ms a"]
    by (simp add: inv_payload_def duringCell_keeps)
  have frS: "heap st l = heap st0 l" if "l \<in> S" for l
    using fr that ST S0[OF that] by (auto simp: inv_frame_def)
  have gal': "\<forall>g \<in> ghostsOf (fades d). g < next st"
    and Tst': "\<forall>a \<in> T. a < next st"
    and ix0': "\<forall>i p. index (heap st0 nr) i = Some p \<longrightarrow> p \<in> T"
    using gal Tst ix0 by blast+
  note carry = jobsInv_carry[OF J gal' Tst' ix0']
  show ?thesis
  proof (cases "right m")
    case (Some r)
    have r: "r \<in> T" "r \<notin> set (rightsOf ms)"
      using matchesOk_snoc(3)[OF mok Some] by simp_all
    show ?thesis
    proof (cases "left m")
      case (Some l)
      have lS: "l \<in> S" using matchesOk_snoc(2)[OF mok Some] .
      have lr: "l \<noteq> r" using lS r(1) ST by auto
      define st' where "st' = modify r (\<lambda>_. stepCell imp (heap st l) (heap st r)) st"
      have pm: "processMatch imp ctx nr (d, st) m = (stepData imp (heap st l) (heap st r) r d, st')"
        using pm_both[OF Some \<open>right m = Some r\<close>] updateElement_cell[OF lr] by (simp add: st'_def)
      have fd: "fades (fst (processMatch imp ctx nr (d, st) m)) = fades d @ []"
        and sd: "snd (processMatch imp ctx nr (d, st) m) = st'"
        by (simp_all add: pm stepData_facts)
      have keep: "children (heap st' a) = children (heap st a)" "index (heap st' a) = index (heap st a)"
        "parent (heap st' a) = parent (heap st a)" "elem_id (heap st' a) = elem_id (heap st a)" for a
        by (cases "a = r"; simp add: st'_def heap_modify_same heap_modify_other stepCell_keeps)+
      note c = carry[where st' = st' and new = "[]"]
      show ?thesis
        unfolding fd sd
      proof (rule jobsInv_snocI)
        fix g assume "g \<in> ghostsOf (fades d @ [])"
        then show "index (heap st' nr) (elem_id (heap st' g)) \<noteq> None
          \<and> (\<exists>m' \<in> set (ms @ [m]). left m' \<noteq> None \<and> right m' = None
                \<and> elem_id (heap st' g) = elem_id (heap st0 (the (left m')))
                \<and> \<not> neverResolves st0 nr (ms @ [m]) (leftParentId m'))"
          using c(1)[where g = g] by (simp add: keep)
      next
        fix m' l' p
        assume "m' \<in> set ms \<or> m' = m" "left m' = Some l'" "right m' = None" "ghostWanted nr st0 m' l' p"
        then show "\<exists>g. outJobs st' (elem_id (heap st0 l')) (fades d @ []) = [\<lparr>fade_element = g, fade_type = FadeOut\<rparr>]
                     \<and> next st0 \<le> g \<and> parent (heap st' g) = Some p
                     \<and> g \<in> set (children (heap st' p))"
          using c(2)[where m' = m' and l = l' and p = p] \<open>right m = Some r\<close> by (auto simp: keep)
      next
        fix m' r'
        assume "m' \<in> set ms \<or> m' = m" "left m' = None" "right m' = Some r'" "isFadeable (heap st0 r')"
        then show "filter (\<lambda>f. fade_element f = r') (fades d @ []) = [\<lparr>fade_element = r', fade_type = FadeIn\<rparr>]"
          using c(3)[where m' = m' and r = r'] Some by (auto simp: keep)
      qed
    next
      case None
      have pr: "payload (heap st r) = payload (heap st0 r)"
        using pl r(1) duringCell_fresh[OF r(2)] by (simp add: inv_payload_def)
      have fdb: "isFadeable (heap st r) = isFadeable (heap st0 r)"
        using payload_fields(4)[OF pr] by (simp add: isFadeable_def)
      show ?thesis
      proof (cases "isFadeable (heap st0 r)")
        case False
        have pm: "processMatch imp ctx nr (d, st) m = (d, st)"
          using pm_added[OF None Some] fdb False by simp
        have fd: "fades (fst (processMatch imp ctx nr (d, st) m)) = fades d @ []"
          and sd: "snd (processMatch imp ctx nr (d, st) m) = st"
          by (simp_all add: pm)
        note c = carry[where st' = st and new = "[]"]
        show ?thesis
          unfolding fd sd
        proof (rule jobsInv_snocI)
          fix g assume "g \<in> ghostsOf (fades d @ [])"
          then show "index (heap st nr) (elem_id (heap st g)) \<noteq> None
            \<and> (\<exists>m' \<in> set (ms @ [m]). left m' \<noteq> None \<and> right m' = None
                  \<and> elem_id (heap st g) = elem_id (heap st0 (the (left m')))
                  \<and> \<not> neverResolves st0 nr (ms @ [m]) (leftParentId m'))"
            using c(1)[where g = g] by simp
        next
          fix m' l' p
          assume "m' \<in> set ms \<or> m' = m" "left m' = Some l'" "right m' = None" "ghostWanted nr st0 m' l' p"
          then show "\<exists>g. outJobs st (elem_id (heap st0 l')) (fades d @ []) = [\<lparr>fade_element = g, fade_type = FadeOut\<rparr>]
                       \<and> next st0 \<le> g \<and> parent (heap st g) = Some p
                       \<and> g \<in> set (children (heap st p))"
            using c(2)[where m' = m' and l = l' and p = p] Some by auto
        next
          fix m' r'
          assume "m' \<in> set ms \<or> m' = m" "left m' = None" "right m' = Some r'" "isFadeable (heap st0 r')"
          then show "filter (\<lambda>f. fade_element f = r') (fades d @ []) = [\<lparr>fade_element = r', fade_type = FadeIn\<rparr>]"
            using c(3)[where m' = m' and r = r'] Some False by auto
        qed
      next
        case True
        define st' where "st' = modify r (\<lambda>e. e\<lparr>opacity := Some 0\<rparr>) st"
        define job where "job = \<lparr>fade_element = r, fade_type = FadeIn\<rparr>"
        have pm: "processMatch imp ctx nr (d, st) m = (d\<lparr>fades := fades d @ [job]\<rparr>, st')"
          using pm_added[OF None Some] fdb True by (simp add: st'_def job_def)
        have fd: "fades (fst (processMatch imp ctx nr (d, st) m)) = fades d @ [job]"
          and sd: "snd (processMatch imp ctx nr (d, st) m) = st'"
          by (simp_all add: pm)
        have keep: "children (heap st' a) = children (heap st a)" "index (heap st' a) = index (heap st a)"
          "parent (heap st' a) = parent (heap st a)" "elem_id (heap st' a) = elem_id (heap st a)" for a
          by (cases "a = r"; simp add: st'_def heap_modify)+
        have gs: "ghostsOf (fades d @ [job]) = ghostsOf (fades d)"
          by (simp add: ghostsOf_snoc job_def)
        have k: "\<forall>a. a < next st \<longrightarrow> elem_id (heap st' a) = elem_id (heap st a)
                  \<and> parent (heap st' a) = parent (heap st a)
                  \<and> set (children (heap st a)) \<subseteq> set (children (heap st' a))"
          and i: "\<forall>i. index (heap st nr) i \<noteq> None \<longrightarrow> index (heap st' nr) i \<noteq> None"
          by (simp_all add: keep)
        have o: "\<forall>f \<in> set [job]. fade_type f = FadeOut
                  \<longrightarrow> index (heap st nr) (elem_id (heap st' (fade_element f))) = None"
          by (simp add: job_def)
        have n: "\<forall>f \<in> set [job]. \<forall>r' \<in> set (rightsOf ms). fade_element f \<noteq> r'"
          using r(2) by (auto simp: job_def)
        note c = carry[where st' = st' and new = "[job]", OF k i o n]
        have old: "filter (\<lambda>f. fade_element f = r) (fades d) = []"
          unfolding filter_empty_conv
        proof (intro ballI notI)
          fix f assume f: "f \<in> set (fades d)" "fade_element f = r"
          show False
          proof (cases "fade_type f")
            case FadeIn
            then have "r \<in> fadeInsOf (fades d)" using f by (auto simp: fadeInsOf_def)
            then have "addedFadeable st0 ms r" using fi by (simp add: inv_fadeIns_def)
            then show False using r(2) by (auto simp: addedFadeable_def set_rightsOf)
          next
            case FadeOut
            then have "r \<in> ghostsOf (fades d)" using f by (auto simp: ghostsOf_def)
            then show False using g0[of r] T0[OF r(1)] by simp
          qed
        qed
        show ?thesis
          unfolding fd sd
        proof (rule jobsInv_snocI)
          fix g assume "g \<in> ghostsOf (fades d @ [job])"
          then show "index (heap st' nr) (elem_id (heap st' g)) \<noteq> None
            \<and> (\<exists>m' \<in> set (ms @ [m]). left m' \<noteq> None \<and> right m' = None
                  \<and> elem_id (heap st' g) = elem_id (heap st0 (the (left m')))
                  \<and> \<not> neverResolves st0 nr (ms @ [m]) (leftParentId m'))"
            using c(1)[where g = g] by (simp add: gs)
        next
          fix m' l' p
          assume "m' \<in> set ms \<or> m' = m" "left m' = Some l'" "right m' = None" "ghostWanted nr st0 m' l' p"
          then show "\<exists>g. outJobs st' (elem_id (heap st0 l')) (fades d @ [job]) = [\<lparr>fade_element = g, fade_type = FadeOut\<rparr>]
                       \<and> next st0 \<le> g \<and> parent (heap st' g) = Some p
                       \<and> g \<in> set (children (heap st' p))"
            using c(2)[where m' = m' and l = l' and p = p] Some by auto
        next
          fix m' r'
          assume a: "m' \<in> set ms \<or> m' = m" "left m' = None" "right m' = Some r'" "isFadeable (heap st0 r')"
          show "filter (\<lambda>f. fade_element f = r') (fades d @ [job]) = [\<lparr>fade_element = r', fade_type = FadeIn\<rparr>]"
          proof (cases "m' \<in> set ms")
            case True
            then show ?thesis
              using c(3)[where m' = m' and r = r'] a by auto
          next
            case False
            then have "r' = r" using a Some by auto
            then show ?thesis using old by (simp add: job_def)
          qed
        qed
      qed
    qed
  next
    case None
    show ?thesis
    proof (cases "left m")
      case lN: None
      have pm: "processMatch imp ctx nr (d, st) m = (d, st)"
        using pm_none[OF lN None] .
      have fd: "fades (fst (processMatch imp ctx nr (d, st) m)) = fades d @ []"
        and sd: "snd (processMatch imp ctx nr (d, st) m) = st"
        by (simp_all add: pm)
      note c = carry[where st' = st and new = "[]"]
      show ?thesis
        unfolding fd sd
      proof (rule jobsInv_snocI)
        fix g assume "g \<in> ghostsOf (fades d @ [])"
        then show "index (heap st nr) (elem_id (heap st g)) \<noteq> None
          \<and> (\<exists>m' \<in> set (ms @ [m]). left m' \<noteq> None \<and> right m' = None
                \<and> elem_id (heap st g) = elem_id (heap st0 (the (left m')))
                \<and> \<not> neverResolves st0 nr (ms @ [m]) (leftParentId m'))"
          using c(1)[where g = g] by simp
      next
        fix m' l' p
        assume "m' \<in> set ms \<or> m' = m" "left m' = Some l'" "right m' = None" "ghostWanted nr st0 m' l' p"
        then show "\<exists>g. outJobs st (elem_id (heap st0 l')) (fades d @ []) = [\<lparr>fade_element = g, fade_type = FadeOut\<rparr>]
                     \<and> next st0 \<le> g \<and> parent (heap st g) = Some p
                     \<and> g \<in> set (children (heap st p))"
          using c(2)[where m' = m' and l = l' and p = p] lN by auto
      next
        fix m' r'
        assume "m' \<in> set ms \<or> m' = m" "left m' = None" "right m' = Some r'" "isFadeable (heap st0 r')"
        then show "filter (\<lambda>f. fade_element f = r') (fades d @ []) = [\<lparr>fade_element = r', fade_type = FadeIn\<rparr>]"
          using c(3)[where m' = m' and r = r'] None by auto
      qed
    next
      case (Some l)
      have lS: "l \<in> S" using matchesOk_snoc(2)[OF mok Some] .
      have hl: "heap st l = heap st0 l" using frS[OF lS] .
      define X where "X = elem_id (heap st0 l)"
      have ixc: "index (heap st nr) i = index (heap st0 nr) i" if "index (heap st0 nr) i \<noteq> None" for i
        using ghostInvD(6)[OF gh, of i] that by blast
      show ?thesis
      proof (cases "\<exists>p. ghostWanted nr st m l p")
        case False
        have pm: "processMatch imp ctx nr (d, st) m = (d, st)"
          using pm_removed_skip[OF Some None] False by simp
        have fd: "fades (fst (processMatch imp ctx nr (d, st) m)) = fades d @ []"
          and sd: "snd (processMatch imp ctx nr (d, st) m) = st"
          by (simp_all add: pm)
        note c = carry[where st' = st and new = "[]"]
        show ?thesis
          unfolding fd sd
        proof (rule jobsInv_snocI)
          fix g assume "g \<in> ghostsOf (fades d @ [])"
          then show "index (heap st nr) (elem_id (heap st g)) \<noteq> None
            \<and> (\<exists>m' \<in> set (ms @ [m]). left m' \<noteq> None \<and> right m' = None
                  \<and> elem_id (heap st g) = elem_id (heap st0 (the (left m')))
                  \<and> \<not> neverResolves st0 nr (ms @ [m]) (leftParentId m'))"
            using c(1)[where g = g] by simp
        next
          fix m' l' p
          assume a: "m' \<in> set ms \<or> m' = m" "left m' = Some l'" "right m' = None" "ghostWanted nr st0 m' l' p"
          show "\<exists>g. outJobs st (elem_id (heap st0 l')) (fades d @ []) = [\<lparr>fade_element = g, fade_type = FadeOut\<rparr>]
                       \<and> next st0 \<le> g \<and> parent (heap st g) = Some p
                       \<and> g \<in> set (children (heap st p))"
          proof (cases "m' \<in> set ms")
            case True
            then show ?thesis using c(2)[where m' = m' and l = l' and p = p] a by auto
          next
            case mn: False
            then have mm: "m' = m" and ll: "l' = l" using a Some by auto
            have w0: "ghostWanted nr st0 m l p" using a(4) mm ll by simp
            have pT: "p \<in> T" using w0 ix0 by (auto simp: ghostWanted_def getById_def)
            have ip: "index (heap st nr) (the (leftParentId m)) = Some p"
              using w0 ixc[of "the (leftParentId m)"] by (simp add: ghostWanted_def getById_def)
            have iX: "index (heap st nr) X = None"
            proof (rule ccontr)
              assume ne: "index (heap st nr) X \<noteq> None"
              have "index (heap st0 nr) X = None"
                using w0 by (simp add: ghostWanted_def getById_def X_def)
              then obtain g where g: "g \<in> ghostsOf (fades d)" "elem_id (heap st g) = X"
                using ghostInvD(6)[OF gh, of X] ne by auto
              obtain m2 where m2: "m2 \<in> set ms" "left m2 \<noteq> None" "right m2 = None"
                  "elem_id (heap st g) = elem_id (heap st0 (the (left m2)))"
                using jobsInvD(2)[OF J g(1)] by blast
              have e: "elem_id (heap st0 (the (left m2))) = elem_id (heap st0 (the (left m)))"
                using m2(4)[symmetric] g(2) Some unfolding X_def by simp
              have "m2 = m"
                using H[unfolded removalsDistinct_def, rule_format, of m2 m] m2(1-3) e Some None
                by simp
              then show False using m2(1) mn mm by simp
            qed
            have "ghostWanted nr st m l p"
              using w0 ip iX hl cls[OF pT] by (simp add: ghostWanted_def getById_def X_def)
            then show ?thesis using False by blast
          qed
        next
          fix m' r'
          assume "m' \<in> set ms \<or> m' = m" "left m' = None" "right m' = Some r'" "isFadeable (heap st0 r')"
          then show "filter (\<lambda>f. fade_element f = r') (fades d @ []) = [\<lparr>fade_element = r', fade_type = FadeIn\<rparr>]"
            using c(3)[where m' = m' and r = r'] None by auto
        qed
      next
        case True
        then obtain p where w: "ghostWanted nr st m l p" ..
        define g where "g = fst (createElement (ctx_modelFactory ctx) (FromElement l) st)"
        define st1 where "st1 = snd (createElement (ctx_modelFactory ctx) (FromElement l) st)"
        define st' where "st' = add nr p g st1"
        define job where "job = \<lparr>fade_element = g, fade_type = FadeOut\<rparr>"
        have pm: "processMatch imp ctx nr (d, st) m = (d\<lparr>fades := fades d @ [job]\<rparr>, st')"
          using pm_removed_ghost[OF Some None w]
          by (simp add: case_prod_unfold Let_def g_def st1_def st'_def job_def)
        have fd: "fades (fst (processMatch imp ctx nr (d, st) m)) = fades d @ [job]"
          and sd: "snd (processMatch imp ctx nr (d, st) m) = st'"
          by (simp_all add: pm)
        have g1: "next st \<le> g" and h1: "\<And>b. b < next st \<Longrightarrow> heap st1 b = heap st b"
          using factoryAllocatesOnlyD[OF fac(1)] by (simp_all add: g_def st1_def)
        have gid: "elem_id (heap st1 g) = X"
          using factoryCopiesD(2)[OF fac(2)] hl by (simp add: g_def st1_def X_def)
        have iX: "index (heap st nr) X = None"
          and ip: "index (heap st nr) (the (leftParentId m)) = Some p"
          and pc: "instanceofSParentElement (elem_class (heap st p))"
          and lp: "leftParentId m \<noteq> None"
          using w hl by (simp_all add: ghostWanted_def getById_def X_def)
        have p1: "p < next st"
          using al ip by (auto simp: inv_alloc_def)
        have nr1: "nr < next st" using Tst[OF nrT] .
        have keep: "elem_id (heap st' a) = elem_id (heap st a)"
          "parent (heap st' a) = parent (heap st a)"
          "children (heap st' a) = (if a = p then children (heap st a) @ [g] else children (heap st a))"
          "index (heap st' a) = (if a = nr then (index (heap st a))(X \<mapsto> g) else index (heap st a))"
          if "a < next st" for a
        proof -
          have ag: "a \<noteq> g" using that g1 by simp
          show "elem_id (heap st' a) = elem_id (heap st a)"
            "parent (heap st' a) = parent (heap st a)"
            "children (heap st' a) = (if a = p then children (heap st a) @ [g] else children (heap st a))"
            "index (heap st' a) = (if a = nr then (index (heap st a))(X \<mapsto> g) else index (heap st a))"
            using ag h1[OF that] gid by (auto simp: st'_def add_fields)
        qed
        have gfacts: "elem_id (heap st' g) = X" "parent (heap st' g) = Some p"
          "g \<in> set (children (heap st' p))" "index (heap st' nr) X = Some g"
          using gid keep(3)[OF p1] keep(4)[OF nr1] by (simp_all add: st'_def add_fields)
        have gs: "ghostsOf (fades d @ [job]) = insert g (ghostsOf (fades d))"
          by (simp add: ghostsOf_snoc job_def)
        have c: "\<And>g'. g' \<in> ghostsOf (fades d) \<Longrightarrow> index (heap st' nr) (elem_id (heap st' g')) \<noteq> None
            \<and> (\<exists>m' \<in> set (ms @ [m]). left m' \<noteq> None \<and> right m' = None
                  \<and> elem_id (heap st' g') = elem_id (heap st0 (the (left m')))
                  \<and> \<not> neverResolves st0 nr (ms @ [m]) (leftParentId m'))"
          "\<And>m' l p. m' \<in> set ms \<Longrightarrow> left m' = Some l \<Longrightarrow> right m' = None \<Longrightarrow> ghostWanted nr st0 m' l p
            \<Longrightarrow> \<exists>g. outJobs st' (elem_id (heap st0 l)) (fades d @ [job]) = [\<lparr>fade_element = g, fade_type = FadeOut\<rparr>]
                     \<and> next st0 \<le> g \<and> parent (heap st' g) = Some p
                     \<and> g \<in> set (children (heap st' p))"
          "\<And>m' r. m' \<in> set ms \<Longrightarrow> left m' = None \<Longrightarrow> right m' = Some r \<Longrightarrow> isFadeable (heap st0 r)
            \<Longrightarrow> filter (\<lambda>f. fade_element f = r) (fades d @ [job]) = [\<lparr>fade_element = r, fade_type = FadeIn\<rparr>]"
        proof -
          have k: "\<forall>a. a < next st \<longrightarrow> elem_id (heap st' a) = elem_id (heap st a)
                  \<and> parent (heap st' a) = parent (heap st a)
                  \<and> set (children (heap st a)) \<subseteq> set (children (heap st' a))"
            using keep by auto
          have i: "\<forall>i. index (heap st nr) i \<noteq> None \<longrightarrow> index (heap st' nr) i \<noteq> None"
            using keep(4)[OF nr1] by simp
          have o: "\<forall>f \<in> set [job]. fade_type f = FadeOut
                  \<longrightarrow> index (heap st nr) (elem_id (heap st' (fade_element f))) = None"
            using iX gfacts(1) by (simp add: job_def)
          have n: "\<forall>f \<in> set [job]. \<forall>r \<in> set (rightsOf ms). fade_element f \<noteq> r"
          proof (intro ballI)
            fix f r assume "f \<in> set [job]" "r \<in> set (rightsOf ms)"
            then have "fade_element f = g" "r < next st" using rT Tst by (auto simp: job_def)
            then show "fade_element f \<noteq> r" using g1 by simp
          qed
          note cc = carry[where st' = st' and new = "[job]", OF k i o n]
          show "\<And>g'. g' \<in> ghostsOf (fades d) \<Longrightarrow> index (heap st' nr) (elem_id (heap st' g')) \<noteq> None
            \<and> (\<exists>m' \<in> set (ms @ [m]). left m' \<noteq> None \<and> right m' = None
                  \<and> elem_id (heap st' g') = elem_id (heap st0 (the (left m')))
                  \<and> \<not> neverResolves st0 nr (ms @ [m]) (leftParentId m'))"
            using cc(1) .
          show "\<And>m' l p. m' \<in> set ms \<Longrightarrow> left m' = Some l \<Longrightarrow> right m' = None \<Longrightarrow> ghostWanted nr st0 m' l p
            \<Longrightarrow> \<exists>g. outJobs st' (elem_id (heap st0 l)) (fades d @ [job]) = [\<lparr>fade_element = g, fade_type = FadeOut\<rparr>]
                     \<and> next st0 \<le> g \<and> parent (heap st' g) = Some p
                     \<and> g \<in> set (children (heap st' p))"
            using cc(2) .
          show "\<And>m' r. m' \<in> set ms \<Longrightarrow> left m' = None \<Longrightarrow> right m' = Some r \<Longrightarrow> isFadeable (heap st0 r)
            \<Longrightarrow> filter (\<lambda>f. fade_element f = r) (fades d @ [job]) = [\<lparr>fade_element = r, fade_type = FadeIn\<rparr>]"
            using cc(3) .
        qed
        have res: "\<not> neverResolves st0 nr (ms @ [m]) (leftParentId m)"
        proof -
          obtain pid where pid: "leftParentId m = Some pid" using lp by auto
          have ipid: "index (heap st nr) pid = Some p" using ip pid by simp
          show ?thesis
          proof (cases "index (heap st0 nr) pid")
            case (Some p0)
            then have "p0 = p" using ixc[of pid] ipid by simp
            moreover have "p0 \<in> T" using ix0[OF Some] .
            ultimately show ?thesis
              using Some pc cls[of p] by (simp add: neverResolves_def pid getById_def)
          next
            case None
            then obtain g' where g': "g' \<in> ghostsOf (fades d)" "elem_id (heap st g') = pid"
              using ghostInvD(6)[OF gh, of pid] ipid by auto
            obtain m2 where m2: "m2 \<in> set ms" "left m2 \<noteq> None" "right m2 = None"
                "elem_id (heap st g') = elem_id (heap st0 (the (left m2)))"
              using jobsInvD(2)[OF J g'(1)] by blast
            have "pid \<in> removedIds st0 (ms @ [m])"
              unfolding removedIds_def using m2 g'(2) by force
            then show ?thesis
              using None by (simp add: neverResolves_def pid getById_def)
          qed
        qed
        have none: "outJobs st' X (fades d) = []"
          unfolding outJobs_def filter_empty_conv
        proof (intro ballI notI)
          fix f assume f: "f \<in> set (fades d)"
            "fade_type f = FadeOut \<and> elem_id (heap st' (fade_element f)) = X"
          then have gg: "fade_element f \<in> ghostsOf (fades d)" by (auto simp: ghostsOf_def)
          have "elem_id (heap st (fade_element f)) = X"
            using keep(1)[OF gal[OF gg]] f(2) by simp
          then show False using jobsInvD(1)[OF J gg] iX by simp
        qed
        show ?thesis
          unfolding fd sd
        proof (rule jobsInv_snocI)
          fix g' assume "g' \<in> ghostsOf (fades d @ [job])"
          then consider "g' \<in> ghostsOf (fades d)" | "g' = g" using gs by auto
          then show "index (heap st' nr) (elem_id (heap st' g')) \<noteq> None
            \<and> (\<exists>m' \<in> set (ms @ [m]). left m' \<noteq> None \<and> right m' = None
                  \<and> elem_id (heap st' g') = elem_id (heap st0 (the (left m')))
                  \<and> \<not> neverResolves st0 nr (ms @ [m]) (leftParentId m'))"
          proof cases
            case 1
            then show ?thesis using c(1) by blast
          next
            case 2
            have "\<exists>m' \<in> set (ms @ [m]). left m' \<noteq> None \<and> right m' = None
                  \<and> elem_id (heap st' g) = elem_id (heap st0 (the (left m')))
                  \<and> \<not> neverResolves st0 nr (ms @ [m]) (leftParentId m')"
              using Some None res gfacts(1) by (auto simp: X_def)
            then show ?thesis using 2 gfacts(1,4) by simp
          qed
        next
          fix m' l' p'
          assume a: "m' \<in> set ms \<or> m' = m" "left m' = Some l'" "right m' = None" "ghostWanted nr st0 m' l' p'"
          show "\<exists>g. outJobs st' (elem_id (heap st0 l')) (fades d @ [job]) = [\<lparr>fade_element = g, fade_type = FadeOut\<rparr>]
                       \<and> next st0 \<le> g \<and> parent (heap st' g) = Some p'
                       \<and> g \<in> set (children (heap st' p'))"
          proof (cases "m' \<in> set ms")
            case True
            then show ?thesis using c(2)[where m' = m' and l = l' and p = p'] a by auto
          next
            case False
            then have mm: "m' = m" and ll: "l' = l" using a Some by auto
            have "index (heap st0 nr) (the (leftParentId m)) = Some p'"
              using a(4) mm by (simp add: ghostWanted_def getById_def)
            then have pp: "p' = p" using ixc[of "the (leftParentId m)"] ip by simp
            have "outJobs st' X (fades d @ [job]) = [job]"
              using none gfacts(1) by (simp add: outJobs_append) (simp add: outJobs_def job_def)
            then show ?thesis
              using gfacts(2,3) g1 n0 unfolding pp ll X_def job_def by auto
          qed
        next
          fix m' r'
          assume "m' \<in> set ms \<or> m' = m" "left m' = None" "right m' = Some r'" "isFadeable (heap st0 r')"
          then show "filter (\<lambda>f. fade_element f = r') (fades d @ [job]) = [\<lparr>fade_element = r', fade_type = FadeIn\<rparr>]"
            using c(3)[where m' = m' and r = r'] None by auto
        qed
      qed
    qed
  qed
qed

lemma jobsInv_init: "jobsInv nr st0 [] [] st0"
  by (simp add: jobsInv_def ghostsOf_def)

lemma removalsDistinct_snoc: "removalsDistinct st0 (ms @ [m]) \<Longrightarrow> removalsDistinct st0 ms"
  by (simp add: removalsDistinct_def)

lemma jobsInv_fold:
  assumes ok: "treesOk S T nr st0"
    and fac: "factoryAllocatesOnly (ctx_modelFactory ctx)" "factoryCopies (ctx_modelFactory ctx)"
  shows "matchesOk S T ms \<Longrightarrow> removalsDistinct st0 ms
    \<Longrightarrow> jobsInv nr st0 ms
          (fades (fst (foldl (processMatch imp ctx nr) (\<lparr>fades = [], moves = None, resizes = None\<rparr>, st0) ms)))
          (snd (foldl (processMatch imp ctx nr) (\<lparr>fades = [], moves = None, resizes = None\<rparr>, st0) ms))"
proof (induction ms rule: rev_induct)
  case Nil
  show ?case using jobsInv_init by simp
next
  case (snoc m ms)
  define acc where "acc = foldl (processMatch imp ctx nr) (\<lparr>fades = [], moves = None, resizes = None\<rparr>, st0) ms"
  have inv: "passInv imp T nr st0 ms (fst acc, snd acc)"
    using passInv_fold[OF ok fac matchesOk_snoc(1)[OF snoc.prems(1)], of imp] by (simp add: acc_def)
  have J: "jobsInv nr st0 ms (fades (fst acc)) (snd acc)"
    using snoc.IH[OF matchesOk_snoc(1)[OF snoc.prems(1)] removalsDistinct_snoc[OF snoc.prems(2)]]
    by (simp add: acc_def)
  show ?case
    using jobsInv_step[OF ok fac inv J snoc.prems] by (simp add: acc_def)
qed

lemma jobsInv_collect:
  assumes ok: "treesOk S T nr st0"
    and fac: "factoryAllocatesOnly (ctx_modelFactory ctx)" "factoryCopies (ctx_modelFactory ctx)"
    and pm: "properMatch S T mr"
    and H: "removalsDistinct st0 (map snd mr)"
  shows "jobsInv nr st0 (map snd mr) (fades (fst (collectAnimationData imp ctx nr mr st0)))
           (snd (collectAnimationData imp ctx nr mr st0))"
  using jobsInv_fold[OF ok fac _ H, where imp = imp] pm
  by (simp add: properMatch_def collect_foldl)

lemma fadesOf_createAnimations: "concat (map fadesOf (createAnimations d rt st)) = fades d"
  by (simp add: createAnimations_def Let_def split: option.splits)

subsection \<open>The fade jobs of a pass\<close>

lemma computeAnimation_fades:
  "queuedFades (fst (computeAnimation imp nr mr ctx st)) = fades (fst (collectAnimationData imp ctx nr mr st))"
  "snd (computeAnimation imp nr mr ctx st) = snd (collectAnimationData imp ctx nr mr st)"
proof -
  define d where "d = fst (collectAnimationData imp ctx nr mr st)"
  define st1 where "st1 = snd (collectAnimationData imp ctx nr mr st)"
  define as where "as = createAnimations d nr st1"
  have ca: "computeAnimation imp nr mr ctx st =
      (if length as \<ge> 2 then IsAnimation (CompoundAnimation nr as)
       else if length as = 1 then IsAnimation (as ! 0)
       else IsRoot nr, st1)"
    by (simp add: computeAnimation_def case_prod_unfold Let_def d_def st1_def as_def)
  have f: "concat (map fadesOf as) = fades d"
    unfolding as_def by (rule fadesOf_createAnimations)
  show "snd (computeAnimation imp nr mr ctx st) = snd (collectAnimationData imp ctx nr mr st)"
    by (simp add: ca st1_def)
  consider "length as \<ge> 2" | a where "as = [a]" | "as = []"
    by (cases as; cases "tl as"; auto)
  then show "queuedFades (fst (computeAnimation imp nr mr ctx st)) = fades (fst (collectAnimationData imp ctx nr mr st))"
  proof cases
    case 1
    then show ?thesis using f by (simp add: ca queuedFades_def d_def)
  next
    case 2
    then show ?thesis using f by (simp add: ca queuedFades_def d_def)
  next
    case 3
    then show ?thesis using f by (simp add: ca queuedFades_def d_def)
  qed
qed

lemma pass_jobs:
  assumes ok: "treesOk S T nr st0"
    and fac: "factoryAllocatesOnly (ctx_modelFactory ctx)" "factoryCopies (ctx_modelFactory ctx)"
    and pm: "properMatch S T mr"
    and H: "removalsDistinct st0 (map snd mr)"
    and res: "computeAnimation imp nr mr ctx st0 = (result, st)"
  shows "jobsInv nr st0 (map snd mr) (queuedFades result) st"
    and "\<exists>d. passInv imp T nr st0 (map snd mr) (d, st) \<and> fades d = queuedFades result"
proof -
  have q: "queuedFades result = fades (fst (collectAnimationData imp ctx nr mr st0))"
    and s: "st = snd (collectAnimationData imp ctx nr mr st0)"
    using computeAnimation_fades[of imp nr mr ctx st0] res by simp_all
  show "jobsInv nr st0 (map snd mr) (queuedFades result) st"
    unfolding q s by (rule jobsInv_collect[OF ok fac pm H])
  have "passInv imp T nr st0 (map snd mr) (fst (collectAnimationData imp ctx nr mr st0), st)"
    using passInv_collect[OF ok fac pm, of imp] by (simp add: s)
  then show "\<exists>d. passInv imp T nr st0 (map snd mr) (d, st) \<and> fades d = queuedFades result"
    using q by auto
qed

lemma fade_removal:
  assumes ok: "treesOk S T nr st0"
    and fac: "factoryAllocatesOnly (ctx_modelFactory ctx)" "factoryCopies (ctx_modelFactory ctx)"
    and pm: "properMatch S T mr"
    and H: "removalsDistinct st0 (map snd mr)"
    and res: "computeAnimation imp nr mr ctx st0 = (result, st)"
    and m: "m \<in> set (map snd mr)" "left m = Some l" "right m = None"
    and w: "ghostWanted nr st0 m l p"
  shows "\<exists>g. filter (\<lambda>f. fade_type f = FadeOut \<and> elem_id (heap st (fade_element f)) = elem_id (heap st0 l))
                (queuedFades result) = [\<lparr>fade_element = g, fade_type = FadeOut\<rparr>]
             \<and> next st0 \<le> g \<and> g < next st \<and> parent (heap st g) = Some p
             \<and> g \<in> set (children (heap st p)) \<and> g \<notin> set (children (heap st0 p))"
proof -
  obtain d where inv: "passInv imp T nr st0 (map snd mr) (d, st)" and fd: "fades d = queuedFades result"
    using pass_jobs(2)[OF ok fac pm H res] by blast
  obtain g where g: "outJobs st (elem_id (heap st0 l)) (queuedFades result) = [\<lparr>fade_element = g, fade_type = FadeOut\<rparr>]"
      "next st0 \<le> g" "parent (heap st g) = Some p" "g \<in> set (children (heap st p))"
    using jobsInvD(3)[OF pass_jobs(1)[OF ok fac pm H res] m w] by blast
  have "g \<in> ghostsOf (fades d)"
    using outJobs_ghost(1)[OF g(1)] fd by simp
  then have 1: "g < next st"
    using inv by (simp add: passInv_def inv_alloc_def)
  have "p \<in> T"
    using w treesOkD(5)[OF ok] by (auto simp: ghostWanted_def getById_def)
  then have 2: "g \<notin> set (children (heap st0 p))"
    using treesOkD(6)[OF ok, of p g] g(2) by auto
  show ?thesis
    using g 1 2 unfolding outJobs_def by blast
qed

lemma fade_addition:
  assumes ok: "treesOk S T nr st0"
    and fac: "factoryAllocatesOnly (ctx_modelFactory ctx)" "factoryCopies (ctx_modelFactory ctx)"
    and pm: "properMatch S T mr"
    and H: "removalsDistinct st0 (map snd mr)"
    and res: "computeAnimation imp nr mr ctx st0 = (result, st)"
    and m: "m \<in> set (map snd mr)" "left m = None" "right m = Some r"
    and f: "isFadeable (heap st0 r)"
  shows "filter (\<lambda>f. fade_element f = r) (queuedFades result) = [\<lparr>fade_element = r, fade_type = FadeIn\<rparr>]
         \<and> opacity (heap st r) = Some 0"
proof -
  obtain d where inv: "passInv imp T nr st0 (map snd mr) (d, st)" and fd: "fades d = queuedFades result"
    using pass_jobs(2)[OF ok fac pm H res] by blast
  have mo: "matchesOk S T (map snd mr)"
    using pm by (simp add: properMatch_def)
  have rT: "r \<in> T" and di: "distinct (rightsOf (map snd mr))"
    using mo m(1,3) by (auto simp: matchesOk_def)
  have "filter (\<lambda>m. right m = Some r) (map snd mr) = [m]"
    using filter_unique[OF di m(1,3)] .
  then have "duringCell imp st0 (map snd mr) r = fadeStart (heap st0 r)"
    using m(2) by (simp add: duringCell_def)
  moreover have "payload (heap st r) = payload (duringCell imp st0 (map snd mr) r)"
    using inv rT by (simp add: passInv_def inv_payload_def)
  ultimately have "opacity (heap st r) = opacity (fadeStart (heap st0 r))"
    using payload_fields(4) by metis
  then have "opacity (heap st r) = Some 0"
    using f by (simp add: fadeStart_def)
  then show ?thesis
    using jobsInvD(4)[OF pass_jobs(1)[OF ok fac pm H res] m f] by simp
qed

text \<open>
  C4. A pass of \<^verbatim>\<open>computeAnimation\<close> over a match result, from the state \<open>st0\<close> to the
  state \<open>st\<close>, with the result \<open>result\<close>. For every match of the match result that has only
  an old element \<open>l\<close>, where \<open>l\<close> is a child element (an element that has a parent) and
  fadeable, its identifier is absent from the index of the new root and its recorded
  parent identifier resolves there to a parent element \<open>p\<close>: among the fade jobs of the
  result exactly one is a fade-out of an element with the identifier of \<open>l\<close>; its element
  \<open>g\<close> is an object that the pass has allocated, and at the end \<open>g\<close> has the parent \<open>p\<close>
  and is a child of \<open>p\<close>, which it was not before. For every match that has only a new
  element \<open>r\<close>, where \<open>r\<close> is fadeable: the fade jobs of the result have exactly one job
  for \<open>r\<close>, a fade-in, and at the end the opacity of \<open>r\<close> is \<open>0\<close>.

  The theorem assumes of the two trees that they are disjoint sets of allocated objects
  and that the new tree has the children of its elements, unique identifiers and an index
  that leads into it (\<open>treesOk\<close>); of the model factory that it only allocates and that a
  copy has the identifier of its original; and of the match result that it is proper and
  that no two of its matches remove elements with the same identifier.
\<close>

theorem fade_symmetry:
  assumes "treesOk S T nr st0"
    and "factoryAllocatesOnly (ctx_modelFactory ctx)" and "factoryCopies (ctx_modelFactory ctx)"
    and "properMatch S T mr" and "removalsDistinct st0 (map snd mr)"
    and "computeAnimation imp nr mr ctx st0 = (result, st)"
  shows "(\<forall>m \<in> set (map snd mr). \<forall>l pid p.
            left m = Some l \<and> right m = None
            \<and> instanceofSChildElement (elem_class (heap st0 l)) \<and> isFadeable (heap st0 l)
            \<and> leftParentId m = Some pid
            \<and> getById st0 nr (elem_id (heap st0 l)) = None
            \<and> getById st0 nr pid = Some p \<and> instanceofSParentElement (elem_class (heap st0 p))
          \<longrightarrow> (\<exists>g. filter (\<lambda>f. fade_type f = FadeOut
                              \<and> elem_id (heap st (fade_element f)) = elem_id (heap st0 l))
                       (queuedFades result)
                     = [\<lparr>fade_element = g, fade_type = FadeOut\<rparr>]
                   \<and> next st0 \<le> g \<and> g < next st \<and> parent (heap st g) = Some p
                   \<and> g \<in> set (children (heap st p)) \<and> g \<notin> set (children (heap st0 p))))
       \<and> (\<forall>m \<in> set (map snd mr). \<forall>r.
            left m = None \<and> right m = Some r \<and> isFadeable (heap st0 r)
          \<longrightarrow> filter (\<lambda>f. fade_element f = r) (queuedFades result)
                = [\<lparr>fade_element = r, fade_type = FadeIn\<rparr>]
              \<and> opacity (heap st r) = Some 0)"
proof (rule conjI; intro ballI allI impI)
  fix m l pid p
  assume m: "m \<in> set (map snd mr)"
    and a: "left m = Some l \<and> right m = None
            \<and> instanceofSChildElement (elem_class (heap st0 l)) \<and> isFadeable (heap st0 l)
            \<and> leftParentId m = Some pid
            \<and> getById st0 nr (elem_id (heap st0 l)) = None
            \<and> getById st0 nr pid = Some p \<and> instanceofSParentElement (elem_class (heap st0 p))"
  then have w: "ghostWanted nr st0 m l p"
    by (simp add: ghostWanted_def)
  show "\<exists>g. filter (\<lambda>f. fade_type f = FadeOut
                              \<and> elem_id (heap st (fade_element f)) = elem_id (heap st0 l))
                       (queuedFades result)
                     = [\<lparr>fade_element = g, fade_type = FadeOut\<rparr>]
                   \<and> next st0 \<le> g \<and> g < next st \<and> parent (heap st g) = Some p
                   \<and> g \<in> set (children (heap st p)) \<and> g \<notin> set (children (heap st0 p))"
    using fade_removal[OF assms m _ _ w] a by simp
next
  fix m r
  assume m: "m \<in> set (map snd mr)"
    and a: "left m = None \<and> right m = Some r \<and> isFadeable (heap st0 r)"
  show "filter (\<lambda>f. fade_element f = r) (queuedFades result)
                = [\<lparr>fade_element = r, fade_type = FadeIn\<rparr>]
              \<and> opacity (heap st r) = Some 0"
    using fade_addition[OF assms m] a by simp
qed

text \<open>
  The example: the old element \<^verbatim>\<open>b\<close> is removed and its recorded parent \<^verbatim>\<open>graph\<close> is the
  new root \<open>3\<close>; the new element \<open>5\<close> is added.
\<close>

lemma exampleFactory_copies: "factoryCopies exampleFactory"
  by (auto simp: factoryCopies_def exampleFactory_def allocate_def split: source.splits)

lemma example_properMatch: "properMatch {0, 1, 2} {3, 4, 5} exampleMatchResult"
  by (simp add: properMatch_def matchesOk_def exampleMatchResult_def rightsOf_def
      List.map_filter_def)

lemma example_removalsDistinct: "removalsDistinct exampleState (map snd exampleMatchResult)"
  by (simp add: removalsDistinct_def exampleMatchResult_def)

theorem fade_symmetry_witness:
  "(\<exists>g. filter (\<lambda>f. fade_type f = FadeOut
                      \<and> elem_id (heap (snd examplePass) (fade_element f)) = ''b'')
            (queuedFades (fst examplePass))
          = [\<lparr>fade_element = g, fade_type = FadeOut\<rparr>]
        \<and> 6 \<le> g \<and> g < next (snd examplePass) \<and> parent (heap (snd examplePass) g) = Some 3
        \<and> g \<in> set (children (heap (snd examplePass) 3)) \<and> g \<notin> {4, 5})
   \<and> filter (\<lambda>f. fade_element f = 5) (queuedFades (fst examplePass))
       = [\<lparr>fade_element = 5, fade_type = FadeIn\<rparr>]
   \<and> opacity (heap (snd examplePass) 5) = Some 0"
proof -
  let ?mb = "\<lparr>left = Some 2, leftParentId = Some ''graph'', right = None, rightParentId = None\<rparr> :: addr match"
  let ?mc = "\<lparr>left = None, leftParentId = None, right = Some 5, rightParentId = Some ''graph''\<rparr> :: addr match"
  have fac: "factoryAllocatesOnly (ctx_modelFactory exampleContext)"
    "factoryCopies (ctx_modelFactory exampleContext)"
    by (simp_all add: exampleContext_def exampleFactory_allocates exampleFactory_copies)
  have res: "computeAnimation exampleImported 3 exampleMatchResult exampleContext exampleState
               = (fst examplePass, snd examplePass)"
    by (simp add: examplePass_def)
  note T = fade_symmetry[OF example_treesOk(1) fac example_properMatch example_removalsDistinct res]
  have mb: "?mb \<in> set (map snd exampleMatchResult)" and mc: "?mc \<in> set (map snd exampleMatchResult)"
    by (simp_all add: exampleMatchResult_def)
  have old: "left ?mb = Some 2 \<and> right ?mb = None
            \<and> instanceofSChildElement (elem_class (heap exampleState 2)) \<and> isFadeable (heap exampleState 2)
            \<and> leftParentId ?mb = Some ''graph''
            \<and> getById exampleState 3 (elem_id (heap exampleState 2)) = None
            \<and> getById exampleState 3 ''graph'' = Some 3
            \<and> instanceofSParentElement (elem_class (heap exampleState 3))"
    and new: "left ?mc = None \<and> right ?mc = Some 5 \<and> isFadeable (heap exampleState 5)"
    by (simp_all add: example_defs isFadeable_def getById_def)
  have vals: "elem_id (heap exampleState 2) = ''b''" "next exampleState = 6"
    "set (children (heap exampleState 3)) = {4, 5}"
    by (simp_all add: example_defs)
  have removal: "\<exists>g. filter (\<lambda>f. fade_type f = FadeOut
                      \<and> elem_id (heap (snd examplePass) (fade_element f)) = elem_id (heap exampleState 2))
            (queuedFades (fst examplePass))
          = [\<lparr>fade_element = g, fade_type = FadeOut\<rparr>]
        \<and> next exampleState \<le> g \<and> g < next (snd examplePass) \<and> parent (heap (snd examplePass) g) = Some 3
        \<and> g \<in> set (children (heap (snd examplePass) 3)) \<and> g \<notin> set (children (heap exampleState 3))"
    by (rule T[THEN conjunct1, rule_format, OF mb old])
  have addition: "filter (\<lambda>f. fade_element f = 5) (queuedFades (fst examplePass))
       = [\<lparr>fade_element = 5, fade_type = FadeIn\<rparr>]
     \<and> opacity (heap (snd examplePass) 5) = Some 0"
    by (rule T[THEN conjunct2, rule_format, OF mc new])
  show ?thesis
    using removal addition unfolding vals by blast
qed

section \<open>Parents that cannot be resolved\<close>

lemma applyMatches_additions:
  "\<forall>m \<in> set ms. left m = None \<Longrightarrow> \<exists>st'. applyMatches rt ms ctx st = Inr st'"
  by (induction ms arbitrary: st) (simp_all add: applyMatchLeft_def)

lemma applyMatchRight_unresolved:
  assumes "right m = Some s" and "createElement (ctx_modelFactory ctx) (FromSchema s) st = (el, st1)"
    and "unresolvedParent st1 rt (rightParentId m)"
  shows "applyMatchRight rt m ctx st = add rt rt el st1"
  using assms by (auto simp: applyMatchRight_def unresolvedParent_def split: option.splits)

lemma applyMatches_append:
  "applyMatches rt (pre @ post) ctx st =
     (case applyMatches rt pre ctx st of
        Inl e \<Rightarrow> Inl e
      | Inr sa \<Rightarrow> applyMatches rt post ctx sa)"
  by (induction pre arbitrary: st) (simp_all split: sum.splits)

lemma applyMatches_unresolved:
  assumes "applyMatches rt pre ctx st = Inr sa" and "applyMatchLeft rt m sa = Inr sb"
    and "right m = Some s" and "createElement (ctx_modelFactory ctx) (FromSchema s) sb = (el, st1)"
    and "unresolvedParent st1 rt (rightParentId m)"
  shows "applyMatches rt (pre @ m # post) ctx st = applyMatches rt post ctx (add rt rt el st1)"
  using assms(1,2) applyMatchRight_unresolved[OF assms(3-5)]
  by (simp add: applyMatches_append)

lemma applyMatches_failure:
  "applyMatches rt ms ctx st = Inl e
   \<Longrightarrow> \<exists>pre m post sa. ms = pre @ m # post \<and> applyMatches rt pre ctx st = Inr sa
         \<and> applyMatchLeft rt m sa = Inl e"
proof (induction ms arbitrary: st)
  case Nil
  then show ?case by simp
next
  case (Cons m ms)
  show ?case
  proof (cases "applyMatchLeft rt m st")
    case (Inl e')
    then have "e' = e" using Cons.prems by simp
    then have "m # ms = [] @ m # ms \<and> applyMatches rt [] ctx st = Inr st
         \<and> applyMatchLeft rt m st = Inl e"
      using Inl by simp
    then show ?thesis by blast
  next
    case (Inr s1)
    then have "applyMatches rt ms ctx (applyMatchRight rt m ctx s1) = Inl e"
      using Cons.prems by simp
    then obtain pre m' post sa where p: "ms = pre @ m' # post"
        "applyMatches rt pre ctx (applyMatchRight rt m ctx s1) = Inr sa"
        "applyMatchLeft rt m' sa = Inl e"
      using Cons.IH by blast
    have "m # ms = (m # pre) @ m' # post \<and> applyMatches rt (m # pre) ctx st = Inr sa
         \<and> applyMatchLeft rt m' sa = Inl e"
      using p Inr by simp
    then show ?thesis by blast
  qed
qed

lemma applyMatchRight_keeps:
  assumes fac: "factoryAllocatesOnly (ctx_modelFactory ctx)"
    and el: "el < next st" "rt < next st" "el \<in> set (children (heap st rt))"
      "parent (heap st el) = Some rt"
  shows "el < next (applyMatchRight rt m ctx st) \<and> rt < next (applyMatchRight rt m ctx st)
         \<and> el \<in> set (children (heap (applyMatchRight rt m ctx st) rt))
         \<and> parent (heap (applyMatchRight rt m ctx st) el) = Some rt"
proof (cases "right m")
  case None
  then show ?thesis using el by (simp add: applyMatchRight_def)
next
  case (Some s)
  define e' where "e' = fst (createElement (ctx_modelFactory ctx) (FromSchema s) st)"
  define s1 where "s1 = snd (createElement (ctx_modelFactory ctx) (FromSchema s) st)"
  define po where "po = (case rightParentId m of Some pid \<Rightarrow> getById s1 rt pid | None \<Rightarrow> None)"
  have "applyMatchRight rt m ctx st =
          (case po of
             Some pa \<Rightarrow> if instanceofSParentElement (elem_class (heap s1 pa))
                        then add rt pa e' s1 else add rt rt e' s1
           | None \<Rightarrow> add rt rt e' s1)"
    using Some unfolding e'_def s1_def po_def
    by (simp add: applyMatchRight_def case_prod_unfold Let_def)
  then have "\<exists>q. applyMatchRight rt m ctx st = add rt q e' s1"
    by (cases po) auto
  then obtain q where q: "applyMatchRight rt m ctx st = add rt q e' s1" ..
  have e1: "next st \<le> e'" and n1: "next st \<le> next s1"
    and h1: "\<And>b. b < next st \<Longrightarrow> heap s1 b = heap st b"
    using factoryAllocatesOnlyD[OF fac] by (simp_all add: e'_def s1_def)
  have "el \<noteq> e'" using el(1) e1 by simp
  then show ?thesis
    using el n1 h1[OF el(1)] h1[OF el(2)] unfolding q by (auto simp: add_fields)
qed

lemma additions_keep:
  assumes fac: "factoryAllocatesOnly (ctx_modelFactory ctx)"
  shows "\<forall>m \<in> set post. left m = None \<Longrightarrow> el < next st \<Longrightarrow> rt < next st
    \<Longrightarrow> el \<in> set (children (heap st rt)) \<Longrightarrow> parent (heap st el) = Some rt
    \<Longrightarrow> \<exists>st'. applyMatches rt post ctx st = Inr st' \<and> el \<in> set (children (heap st' rt))
            \<and> parent (heap st' el) = Some rt"
proof (induction post arbitrary: st)
  case Nil
  then show ?case by simp
next
  case (Cons m post)
  have l: "applyMatchLeft rt m st = Inr st"
    using Cons.prems(1) by (simp add: applyMatchLeft_def)
  have k: "el < next (applyMatchRight rt m ctx st) \<and> rt < next (applyMatchRight rt m ctx st)
         \<and> el \<in> set (children (heap (applyMatchRight rt m ctx st) rt))
         \<and> parent (heap (applyMatchRight rt m ctx st) el) = Some rt"
    using applyMatchRight_keeps[OF fac Cons.prems(2-5)] .
  have "\<forall>m \<in> set post. left m = None" using Cons.prems(1) by simp
  then show ?case
    using Cons.IH[of "applyMatchRight rt m ctx st"] k l by simp
qed

lemma unresolved_stays:
  assumes "applyMatches rt pre ctx st = Inr sa" and "applyMatchLeft rt m sa = Inr sb"
    and "right m = Some s" and c: "createElement (ctx_modelFactory ctx) (FromSchema s) sb = (el, st1)"
    and "unresolvedParent st1 rt (rightParentId m)"
    and fac: "factoryAllocatesOnly (ctx_modelFactory ctx)" "factoryCopies (ctx_modelFactory ctx)"
    and rt: "rt < next st1"
    and post: "\<forall>m' \<in> set post. left m' = None"
  shows "\<exists>st'. applyMatches rt (pre @ m # post) ctx st = Inr st' \<and> el \<in> set (children (heap st' rt))
            \<and> parent (heap st' el) = Some rt"
proof -
  have e: "el < next st1"
    using factoryCopiesD(1)[OF fac(2), of "FromSchema s" sb] c by simp
  have "el < next (add rt rt el st1)" "rt < next (add rt rt el st1)"
    "el \<in> set (children (heap (add rt rt el st1) rt))" "parent (heap (add rt rt el st1) el) = Some rt"
    using e rt by (simp_all add: add_fields)
  then show ?thesis
    using additions_keep[OF fac(1) post] applyMatches_unresolved[OF assms(1-5)] by simp
qed

lemma unresolved_removal:
  assumes ok: "treesOk S T nr st0"
    and fac: "factoryAllocatesOnly (ctx_modelFactory ctx)" "factoryCopies (ctx_modelFactory ctx)"
    and pm: "properMatch S T mr"
    and H: "removalsDistinct st0 (map snd mr)"
    and res: "computeAnimation imp nr mr ctx st0 = (result, st)"
    and m: "m \<in> set (map snd mr)" "left m = Some l" "right m = None"
    and n: "neverResolves st0 nr (map snd mr) (leftParentId m)"
  shows "filter (\<lambda>f. fade_type f = FadeOut \<and> elem_id (heap st (fade_element f)) = elem_id (heap st0 l))
           (queuedFades result) = []"
    and "\<And>a. a \<in> T \<Longrightarrow> filter (\<lambda>c. c \<notin> set (children (heap st0 a))
                                   \<and> elem_id (heap st c) = elem_id (heap st0 l))
                          (children (heap st a)) = []"
    and "getById st nr (elem_id (heap st0 l)) = getById st0 nr (elem_id (heap st0 l))"
proof -
  obtain d where inv: "passInv imp T nr st0 (map snd mr) (d, st)" and fd: "fades d = queuedFades result"
    using pass_jobs(2)[OF ok fac pm H res] by blast
  have gh: "ghostInv T nr st0 (queuedFades result) st"
    using inv fd by (simp add: passInv_def)
  note J = pass_jobs(1)[OF ok fac pm H res]
  have ng: "elem_id (heap st g) \<noteq> elem_id (heap st0 l)" if g: "g \<in> ghostsOf (queuedFades result)" for g
  proof
    assume e: "elem_id (heap st g) = elem_id (heap st0 l)"
    obtain m2 where m2: "m2 \<in> set (map snd mr)" "left m2 \<noteq> None" "right m2 = None"
        "elem_id (heap st g) = elem_id (heap st0 (the (left m2)))"
        "\<not> neverResolves st0 nr (map snd mr) (leftParentId m2)"
      using jobsInvD(2)[OF J g] by blast
    have e2: "elem_id (heap st0 (the (left m2))) = elem_id (heap st0 (the (left m)))"
      using m2(4)[symmetric] e m(2) by simp
    have "m2 = m"
      using H[unfolded removalsDistinct_def, rule_format, of m2 m] m2(1-3) e2 m by simp
    then show False using m2(5) n by simp
  qed
  show "filter (\<lambda>f. fade_type f = FadeOut \<and> elem_id (heap st (fade_element f)) = elem_id (heap st0 l))
           (queuedFades result) = []"
    unfolding filter_empty_conv
  proof (intro ballI notI)
    fix f assume f: "f \<in> set (queuedFades result)"
      "fade_type f = FadeOut \<and> elem_id (heap st (fade_element f)) = elem_id (heap st0 l)"
    then have "fade_element f \<in> ghostsOf (queuedFades result)" by (auto simp: ghostsOf_def)
    then show False using ng f(2) by blast
  qed
  show "filter (\<lambda>c. c \<notin> set (children (heap st0 a)) \<and> elem_id (heap st c) = elem_id (heap st0 l))
          (children (heap st a)) = []" if a: "a \<in> T" for a
    unfolding filter_empty_conv
  proof (intro ballI notI)
    fix c assume c: "c \<in> set (children (heap st a))"
      "c \<notin> set (children (heap st0 a)) \<and> elem_id (heap st c) = elem_id (heap st0 l)"
    have "\<not> c < next st0"
    proof
      assume "c < next st0"
      then have "c \<in> set (filter (\<lambda>c. c < next st0) (children (heap st a)))"
        using c(1) by simp
      then show False using ghostInvD(4)[OF gh a] c(2) by simp
    qed
    then have "c \<in> ghostsOf (queuedFades result)"
      using ghostInvD(5)[OF gh a c(1)] by blast
    then show False using ng c(2) by blast
  qed
  show "getById st nr (elem_id (heap st0 l)) = getById st0 nr (elem_id (heap st0 l))"
    using ghostInvD(6)[OF gh, of "elem_id (heap st0 l)"] ng by (auto simp: getById_def)
qed

text \<open>
  C7, as amended. In \<^verbatim>\<open>applyMatches\<close>, for a directive \<open>m\<close> at any position of the list,
  after the directives \<open>pre\<close> and before the directives \<open>post\<close>: when the removal half of
  \<open>m\<close> has not failed and the parent identifier of its new side is unresolved, the element
  created for the new side is added to the root, and \<^verbatim>\<open>applyMatches\<close> goes on with \<open>post\<close>
  from there; when the directives of \<open>post\<close> have no old sides, \<^verbatim>\<open>applyMatches\<close> does not
  fail and the element is a child of the root at the end. When \<^verbatim>\<open>applyMatches\<close> fails, the
  removal half of one of its directives has failed, and the removal half of a directive
  is the same whatever parent identifiers the directive names. A list of directives
  without old sides never fails, whatever parents they name.

  In a pass of \<^verbatim>\<open>computeAnimation\<close>, for a match that has only an old element \<open>l\<close> and whose
  recorded parent identifier never resolves: no fade-out job of the result is for an
  element with the identifier of \<open>l\<close>, no element of the new tree has a new child with the
  identifier of \<open>l\<close>, and the index of the new root has for this identifier what it had.
  Nothing is attached to the root. The assumptions on the pass are those of C4.
\<close>

theorem unresolved_parent:
  "(applyMatches rt pre ctx st = Inr sa \<and> applyMatchLeft rt m sa = Inr sb \<and> right m = Some s
      \<and> createElement (ctx_modelFactory ctx) (FromSchema s) sb = (el, st1)
      \<and> unresolvedParent st1 rt (rightParentId m)
    \<longrightarrow> applyMatches rt (pre @ m # post) ctx st = applyMatches rt post ctx (add rt rt el st1)
        \<and> children (heap (add rt rt el st1) rt) = children (heap st1 rt) @ [el]
        \<and> parent (heap (add rt rt el st1) el) = Some rt
        \<and> (factoryAllocatesOnly (ctx_modelFactory ctx) \<and> factoryCopies (ctx_modelFactory ctx)
             \<and> rt < next st1 \<and> (\<forall>m' \<in> set post. left m' = None)
           \<longrightarrow> (\<exists>st'. applyMatches rt (pre @ m # post) ctx st = Inr st'
                   \<and> el \<in> set (children (heap st' rt)) \<and> parent (heap st' el) = Some rt)))
   \<and> (applyMatches rt ms ctx st = Inl e
    \<longrightarrow> (\<exists>pre m post sa. ms = pre @ m # post \<and> applyMatches rt pre ctx st = Inr sa
           \<and> applyMatchLeft rt m sa = Inl e))
   \<and> applyMatchLeft rt (m\<lparr>leftParentId := x, rightParentId := y\<rparr>) st = applyMatchLeft rt m st
   \<and> ((\<forall>m \<in> set ms. left m = None) \<longrightarrow> (\<exists>st'. applyMatches rt ms ctx st = Inr st'))
   \<and> (treesOk S T nr st0
      \<and> factoryAllocatesOnly (ctx_modelFactory ctx') \<and> factoryCopies (ctx_modelFactory ctx')
      \<and> properMatch S T mr \<and> removalsDistinct st0 (map snd mr)
      \<and> computeAnimation imp nr mr ctx' st0 = (result, st')
      \<and> m' \<in> set (map snd mr) \<and> left m' = Some l \<and> right m' = None
      \<and> neverResolves st0 nr (map snd mr) (leftParentId m')
    \<longrightarrow> filter (\<lambda>f. fade_type f = FadeOut
                     \<and> elem_id (heap st' (fade_element f)) = elem_id (heap st0 l))
           (queuedFades result) = []
        \<and> (\<forall>a \<in> T. filter (\<lambda>c. c \<notin> set (children (heap st0 a))
                                \<and> elem_id (heap st' c) = elem_id (heap st0 l))
                       (children (heap st' a)) = [])
        \<and> getById st' nr (elem_id (heap st0 l)) = getById st0 nr (elem_id (heap st0 l)))"
proof (intro conjI)
  show "applyMatches rt pre ctx st = Inr sa \<and> applyMatchLeft rt m sa = Inr sb \<and> right m = Some s
      \<and> createElement (ctx_modelFactory ctx) (FromSchema s) sb = (el, st1)
      \<and> unresolvedParent st1 rt (rightParentId m)
    \<longrightarrow> applyMatches rt (pre @ m # post) ctx st = applyMatches rt post ctx (add rt rt el st1)
        \<and> children (heap (add rt rt el st1) rt) = children (heap st1 rt) @ [el]
        \<and> parent (heap (add rt rt el st1) el) = Some rt
        \<and> (factoryAllocatesOnly (ctx_modelFactory ctx) \<and> factoryCopies (ctx_modelFactory ctx)
             \<and> rt < next st1 \<and> (\<forall>m' \<in> set post. left m' = None)
           \<longrightarrow> (\<exists>st'. applyMatches rt (pre @ m # post) ctx st = Inr st'
                   \<and> el \<in> set (children (heap st' rt)) \<and> parent (heap st' el) = Some rt))"
  proof (rule impI)
    assume a: "applyMatches rt pre ctx st = Inr sa \<and> applyMatchLeft rt m sa = Inr sb \<and> right m = Some s
      \<and> createElement (ctx_modelFactory ctx) (FromSchema s) sb = (el, st1)
      \<and> unresolvedParent st1 rt (rightParentId m)"
    then have h: "applyMatches rt pre ctx st = Inr sa" "applyMatchLeft rt m sa = Inr sb"
      "right m = Some s" "createElement (ctx_modelFactory ctx) (FromSchema s) sb = (el, st1)"
      "unresolvedParent st1 rt (rightParentId m)"
      by simp_all
    have 1: "applyMatches rt (pre @ m # post) ctx st = applyMatches rt post ctx (add rt rt el st1)"
      by (rule applyMatches_unresolved[OF h])
    have 2: "children (heap (add rt rt el st1) rt) = children (heap st1 rt) @ [el]"
      "parent (heap (add rt rt el st1) el) = Some rt"
      by (simp_all add: add_fields)
    have 3: "factoryAllocatesOnly (ctx_modelFactory ctx) \<and> factoryCopies (ctx_modelFactory ctx)
             \<and> rt < next st1 \<and> (\<forall>m' \<in> set post. left m' = None)
           \<longrightarrow> (\<exists>st'. applyMatches rt (pre @ m # post) ctx st = Inr st'
                   \<and> el \<in> set (children (heap st' rt)) \<and> parent (heap st' el) = Some rt)"
      using unresolved_stays[OF h] by blast
    show "applyMatches rt (pre @ m # post) ctx st = applyMatches rt post ctx (add rt rt el st1)
        \<and> children (heap (add rt rt el st1) rt) = children (heap st1 rt) @ [el]
        \<and> parent (heap (add rt rt el st1) el) = Some rt
        \<and> (factoryAllocatesOnly (ctx_modelFactory ctx) \<and> factoryCopies (ctx_modelFactory ctx)
             \<and> rt < next st1 \<and> (\<forall>m' \<in> set post. left m' = None)
           \<longrightarrow> (\<exists>st'. applyMatches rt (pre @ m # post) ctx st = Inr st'
                   \<and> el \<in> set (children (heap st' rt)) \<and> parent (heap st' el) = Some rt))"
      using 1 2 3 by (intro conjI)
  qed
  show "applyMatches rt ms ctx st = Inl e
    \<longrightarrow> (\<exists>pre m post sa. ms = pre @ m # post \<and> applyMatches rt pre ctx st = Inr sa
           \<and> applyMatchLeft rt m sa = Inl e)"
    using applyMatches_failure by blast
  show "applyMatchLeft rt (m\<lparr>leftParentId := x, rightParentId := y\<rparr>) st = applyMatchLeft rt m st"
    by (simp add: applyMatchLeft_def)
  show "(\<forall>m \<in> set ms. left m = None) \<longrightarrow> (\<exists>st'. applyMatches rt ms ctx st = Inr st')"
    using applyMatches_additions by blast
  show "treesOk S T nr st0
      \<and> factoryAllocatesOnly (ctx_modelFactory ctx') \<and> factoryCopies (ctx_modelFactory ctx')
      \<and> properMatch S T mr \<and> removalsDistinct st0 (map snd mr)
      \<and> computeAnimation imp nr mr ctx' st0 = (result, st')
      \<and> m' \<in> set (map snd mr) \<and> left m' = Some l \<and> right m' = None
      \<and> neverResolves st0 nr (map snd mr) (leftParentId m')
    \<longrightarrow> filter (\<lambda>f. fade_type f = FadeOut
                     \<and> elem_id (heap st' (fade_element f)) = elem_id (heap st0 l))
           (queuedFades result) = []
        \<and> (\<forall>a \<in> T. filter (\<lambda>c. c \<notin> set (children (heap st0 a))
                                \<and> elem_id (heap st' c) = elem_id (heap st0 l))
                       (children (heap st' a)) = [])
        \<and> getById st' nr (elem_id (heap st0 l)) = getById st0 nr (elem_id (heap st0 l))"
  proof (rule impI)
    assume a: "treesOk S T nr st0
      \<and> factoryAllocatesOnly (ctx_modelFactory ctx') \<and> factoryCopies (ctx_modelFactory ctx')
      \<and> properMatch S T mr \<and> removalsDistinct st0 (map snd mr)
      \<and> computeAnimation imp nr mr ctx' st0 = (result, st')
      \<and> m' \<in> set (map snd mr) \<and> left m' = Some l \<and> right m' = None
      \<and> neverResolves st0 nr (map snd mr) (leftParentId m')"
    then have h: "treesOk S T nr st0"
      "factoryAllocatesOnly (ctx_modelFactory ctx')" "factoryCopies (ctx_modelFactory ctx')"
      "properMatch S T mr" "removalsDistinct st0 (map snd mr)"
      "computeAnimation imp nr mr ctx' st0 = (result, st')"
      "m' \<in> set (map snd mr)" "left m' = Some l" "right m' = None"
      "neverResolves st0 nr (map snd mr) (leftParentId m')"
      by simp_all
    note u = unresolved_removal[OF h]
    show "filter (\<lambda>f. fade_type f = FadeOut
                     \<and> elem_id (heap st' (fade_element f)) = elem_id (heap st0 l))
           (queuedFades result) = []
        \<and> (\<forall>a \<in> T. filter (\<lambda>c. c \<notin> set (children (heap st0 a))
                                \<and> elem_id (heap st' c) = elem_id (heap st0 l))
                       (children (heap st' a)) = [])
        \<and> getById st' nr (elem_id (heap st0 l)) = getById st0 nr (elem_id (heap st0 l))"
      using u(1) u(2) u(3) by (intro conjI ballI)
  qed
qed

text \<open>
  The removed element \<^verbatim>\<open>b\<close> is a fadeable child element that the new tree does not have;
  its recorded parent does not resolve in the new tree. The pass returns the new root
  without animation and leaves the store as it is: no copy of the element is attached to
  the root of the new tree.
\<close>

theorem unresolved_parent_counterexample:
  "unresolvedParent exampleState 3 (leftParentId exampleOrphan)
   \<and> computeAnimation exampleImported 3 [(''b'', exampleOrphan)] exampleContext exampleState
       = (IsRoot 3, exampleState)
   \<and> children (heap exampleState 3) = [4, 5]"
  by (simp add: computeAnimation_def collectAnimationData_def createAnimations_def
      processMatch_def exampleOrphan_def unresolvedParent_def getById_def isFadeable_def
      example_defs)

text \<open>
  The examples: the directive \<open>exampleAddition\<close>, whose parent does not exist, between two
  directives that name no parent; the removal of an element that has no parent; and the
  pass in which the recorded parent of the removed element \<^verbatim>\<open>b\<close> does not exist.
\<close>

lemma example_orphan_properMatch: "properMatch {0, 1, 2} {3, 4, 5} exampleOrphanResult"
  by (simp add: properMatch_def matchesOk_def exampleOrphanResult_def exampleOrphan_def
      rightsOf_def List.map_filter_def)

lemma example_orphan_removalsDistinct: "removalsDistinct exampleState (map snd exampleOrphanResult)"
  by (simp add: removalsDistinct_def exampleOrphanResult_def exampleOrphan_def)

lemma example_orphan_neverResolves:
  "neverResolves exampleState 3 (map snd exampleOrphanResult) (leftParentId exampleOrphan)"
  by (simp add: neverResolves_def removedIds_def exampleOrphanResult_def exampleOrphan_def
      getById_def example_defs)

lemma example_created:
  "fst exampleCreated = 7" "next (snd exampleCreated) = 8"
  "children (heap (snd exampleCreated) 3) = [4, 5, 6]"
  "unresolvedParent (snd exampleCreated) 3 (rightParentId exampleAddition)"
  by (simp_all add: exampleCreated_def exampleFirst_def exampleRootless_def exampleAddition_def
      applyMatchRight_def add_def modify_def Let_def exampleContext_def exampleFactory_def
      allocate_def unresolvedParent_def getById_def example_defs)

lemma example_detached:
  "applyMatchLeft 3 exampleRemoval exampleDetached
     = Inl (TypeError ''Cannot read property remove of undefined'')"
  by (simp add: applyMatchLeft_def exampleRemoval_def exampleDetached_def getById_def
      heap_modify example_defs)

theorem unresolved_parent_witness:
  "applyMatches 3 ([exampleRootless] @ exampleAddition # [exampleRootless]) exampleContext exampleState
     = applyMatches 3 [exampleRootless] exampleContext (add 3 3 7 (snd exampleCreated))
   \<and> children (heap (add 3 3 7 (snd exampleCreated)) 3) = [4, 5, 6, 7]
   \<and> parent (heap (add 3 3 7 (snd exampleCreated)) 7) = Some 3
   \<and> (\<exists>st'. applyMatches 3 ([exampleRootless] @ exampleAddition # [exampleRootless])
                exampleContext exampleState = Inr st'
            \<and> 7 \<in> set (children (heap st' 3)) \<and> parent (heap st' 7) = Some 3)
   \<and> applyMatches 3 [exampleRemoval] exampleContext exampleDetached
       = Inl (TypeError ''Cannot read property remove of undefined'')
   \<and> (\<exists>pre m post sa. [exampleRemoval] = pre @ m # post
          \<and> applyMatches 3 pre exampleContext exampleDetached = Inr sa
          \<and> applyMatchLeft 3 m sa = Inl (TypeError ''Cannot read property remove of undefined''))
   \<and> (\<exists>st'. applyMatches 3 [exampleAddition, exampleRootless] exampleContext exampleState = Inr st')
   \<and> filter (\<lambda>f. fade_type f = FadeOut
                  \<and> elem_id (heap (snd exampleOrphanPass) (fade_element f)) = ''b'')
        (queuedFades (fst exampleOrphanPass)) = []
   \<and> filter (\<lambda>c. c \<notin> {4, 5} \<and> elem_id (heap (snd exampleOrphanPass) c) = ''b'')
        (children (heap (snd exampleOrphanPass) 3)) = []
   \<and> getById (snd exampleOrphanPass) 3 ''b'' = None"
proof -
  let ?s = "Schema ''node'' ''d'' []"
  let ?e = "TypeError ''Cannot read property remove of undefined''"
  have fac: "factoryAllocatesOnly (ctx_modelFactory exampleContext)"
    "factoryCopies (ctx_modelFactory exampleContext)"
    by (simp_all add: exampleContext_def exampleFactory_allocates exampleFactory_copies)
  have a: "applyMatches 3 [exampleRootless] exampleContext exampleState = Inr exampleFirst
      \<and> applyMatchLeft 3 exampleAddition exampleFirst = Inr exampleFirst
      \<and> right exampleAddition = Some ?s
      \<and> createElement (ctx_modelFactory exampleContext) (FromSchema ?s) exampleFirst
          = (7, snd exampleCreated)
      \<and> unresolvedParent (snd exampleCreated) 3 (rightParentId exampleAddition)"
  proof (intro conjI)
    show "applyMatches 3 [exampleRootless] exampleContext exampleState = Inr exampleFirst"
      by (simp add: applyMatchLeft_def exampleRootless_def exampleFirst_def)
    show "applyMatchLeft 3 exampleAddition exampleFirst = Inr exampleFirst"
      "right exampleAddition = Some ?s"
      by (simp_all add: applyMatchLeft_def exampleAddition_def)
    show "createElement (ctx_modelFactory exampleContext) (FromSchema ?s) exampleFirst
          = (7, snd exampleCreated)"
      using example_created(1) by (simp add: exampleCreated_def prod_eq_iff)
    show "unresolvedParent (snd exampleCreated) 3 (rightParentId exampleAddition)"
      by (rule example_created(4))
  qed
  have d: "factoryAllocatesOnly (ctx_modelFactory exampleContext)
      \<and> factoryCopies (ctx_modelFactory exampleContext)
      \<and> 3 < next (snd exampleCreated) \<and> (\<forall>m' \<in> set [exampleRootless]. left m' = None)"
    using fac example_created(2) by (simp add: exampleRootless_def)
  note T1 = unresolved_parent[where rt = 3 and pre = "[exampleRootless]" and ctx = exampleContext
      and st = exampleState and sa = exampleFirst and m = exampleAddition and sb = exampleFirst
      and s = ?s and el = 7 and ?st1.0 = "snd exampleCreated" and post = "[exampleRootless]",
      THEN conjunct1, THEN mp, OF a]
  have A1: "applyMatches 3 ([exampleRootless] @ exampleAddition # [exampleRootless]) exampleContext exampleState
     = applyMatches 3 [exampleRootless] exampleContext (add 3 3 7 (snd exampleCreated))"
    by (rule T1[THEN conjunct1])
  have A2: "children (heap (add 3 3 7 (snd exampleCreated)) 3) = children (heap (snd exampleCreated) 3) @ [7]"
    by (rule T1[THEN conjunct2, THEN conjunct1])
  have A3: "parent (heap (add 3 3 7 (snd exampleCreated)) 7) = Some 3"
    by (rule T1[THEN conjunct2, THEN conjunct2, THEN conjunct1])
  have A4: "\<exists>st'. applyMatches 3 ([exampleRootless] @ exampleAddition # [exampleRootless])
                exampleContext exampleState = Inr st'
            \<and> 7 \<in> set (children (heap st' 3)) \<and> parent (heap st' 7) = Some 3"
    by (rule T1[THEN conjunct2, THEN conjunct2, THEN conjunct2, THEN mp, OF d])
  have f: "applyMatches 3 [exampleRemoval] exampleContext exampleDetached = Inl ?e"
    using example_detached by simp
  have F: "\<exists>pre m post sa. [exampleRemoval] = pre @ m # post
          \<and> applyMatches 3 pre exampleContext exampleDetached = Inr sa
          \<and> applyMatchLeft 3 m sa = Inl ?e"
    by (rule unresolved_parent[where rt = 3 and ms = "[exampleRemoval]" and ctx = exampleContext
          and st = exampleDetached and e = ?e,
          THEN conjunct2, THEN conjunct1, THEN mp, OF f])
  have n: "\<forall>m \<in> set [exampleAddition, exampleRootless]. left m = None"
    by (simp add: exampleAddition_def exampleRootless_def)
  have N: "\<exists>st'. applyMatches 3 [exampleAddition, exampleRootless] exampleContext exampleState = Inr st'"
    by (rule unresolved_parent[where rt = 3 and ms = "[exampleAddition, exampleRootless]"
          and ctx = exampleContext and st = exampleState,
          THEN conjunct2, THEN conjunct2, THEN conjunct2, THEN conjunct1, THEN mp, OF n])
  have b: "treesOk {0, 1, 2} {3, 4, 5} 3 exampleState
      \<and> factoryAllocatesOnly (ctx_modelFactory exampleContext)
      \<and> factoryCopies (ctx_modelFactory exampleContext)
      \<and> properMatch {0, 1, 2} {3, 4, 5} exampleOrphanResult
      \<and> removalsDistinct exampleState (map snd exampleOrphanResult)
      \<and> computeAnimation exampleImported 3 exampleOrphanResult exampleContext exampleState
          = (fst exampleOrphanPass, snd exampleOrphanPass)
      \<and> exampleOrphan \<in> set (map snd exampleOrphanResult)
      \<and> left exampleOrphan = Some 2 \<and> right exampleOrphan = None
      \<and> neverResolves exampleState 3 (map snd exampleOrphanResult) (leftParentId exampleOrphan)"
  proof (intro conjI)
    show "computeAnimation exampleImported 3 exampleOrphanResult exampleContext exampleState
          = (fst exampleOrphanPass, snd exampleOrphanPass)"
      by (simp add: exampleOrphanPass_def)
    show "exampleOrphan \<in> set (map snd exampleOrphanResult)"
      by (simp add: exampleOrphanResult_def)
    show "left exampleOrphan = Some 2" "right exampleOrphan = None"
      by (simp_all add: exampleOrphan_def)
  qed (rule example_treesOk(1) fac example_orphan_properMatch example_orphan_removalsDistinct
        example_orphan_neverResolves)+
  note T4 = unresolved_parent[where S = "{0, 1, 2}" and T = "{3, 4, 5}" and nr = 3
      and ?st0.0 = exampleState and ctx' = exampleContext and mr = exampleOrphanResult
      and imp = exampleImported and result = "fst exampleOrphanPass"
      and st' = "snd exampleOrphanPass" and m' = exampleOrphan and l = 2,
      THEN conjunct2, THEN conjunct2, THEN conjunct2, THEN conjunct2, THEN mp, OF b]
  have vals: "elem_id (heap exampleState 2) = ''b''" "set (children (heap exampleState 3)) = {4, 5}"
    "getById exampleState 3 ''b'' = None"
    by (simp_all add: example_defs getById_def)
  have B1: "filter (\<lambda>f. fade_type f = FadeOut
                  \<and> elem_id (heap (snd exampleOrphanPass) (fade_element f)) = ''b'')
        (queuedFades (fst exampleOrphanPass)) = []"
    using T4[THEN conjunct1] unfolding vals .
  have B2: "filter (\<lambda>c. c \<notin> {4, 5} \<and> elem_id (heap (snd exampleOrphanPass) c) = ''b'')
        (children (heap (snd exampleOrphanPass) 3)) = []"
    using T4[THEN conjunct2, THEN conjunct1, rule_format, of 3] unfolding vals by simp
  have B3: "getById (snd exampleOrphanPass) 3 ''b'' = None"
    using T4[THEN conjunct2, THEN conjunct2] unfolding vals .
  have A2': "children (heap (add 3 3 7 (snd exampleCreated)) 3) = [4, 5, 6, 7]"
    using A2 unfolding example_created(3) by simp
  show ?thesis
    using A1 A2' A3 A4 f F N B1 B2 B3 by (intro conjI)
qed

end
